theory Spec2Isabelle
  imports Main "HOL-Library.Multiset" "HOL-Library.Word"
begin

section \<open>JavaScript values used by stream_player.js\<close>

text \<open>
  The four statistics are JavaScript numbers, that is IEEE 754 doubles. Every number the
  player adds is an integer (a file size, a count of bytes, a difference of two
  \<open>Date.now()\<close> readings, a sum of these), \<open>NaN\<close> (a difference in which one reading is still
  \<open>undefined\<close>) or an infinity (a sum that has left the range of the doubles). \<open>Num a\<close> is the
  double whose value is the integer \<open>a\<close>; the integers that no double has, all of them above
  \<open>2 ^ 53\<close> in absolute value, are numbers that the program never holds.
\<close>

datatype jsnum = Num int | NaN | PosInfinity | NegInfinity

text \<open>The number of binary digits of a number: \<open>2 ^ (bit_length n - 1) \<le> n < 2 ^ bit_length n\<close>.\<close>

function bit_length :: "int \<Rightarrow> nat" where
  "bit_length n = (if n \<le> 0 then 0 else Suc (bit_length (n div 2)))"
  by pat_completeness auto

termination
  by (relation "measure nat") auto

declare bit_length.simps [simp del]

text \<open>
  The double nearest to an integer, as the addition of two doubles rounds its exact result:
  every integer up to \<open>2 ^ 53\<close> in absolute value is a double; above, the doubles are the
  multiples of \<open>u = 2 ^ (e - 52)\<close> between \<open>2 ^ e\<close> and \<open>2 ^ (e + 1)\<close>, the result is the nearest
  of them, the one with the even quotient when two are as near, and an infinity from
  \<open>2 ^ 1024\<close> on.
\<close>

definition double_round :: "int \<Rightarrow> jsnum" where
  "double_round x =
     (if \<bar>x\<bar> \<le> 2 ^ 53 then Num x
      else (let e = bit_length \<bar>x\<bar> - 1;
                u = 2 ^ (e - 52);
                q = \<bar>x\<bar> div u;
                r = \<bar>x\<bar> mod u;
                q' = (if 2 * r < u then q else if u < 2 * r then q + 1
                      else if even q then q else q + 1);
                m = q' * u
            in if 2 ^ 1024 \<le> m then (if 0 < x then PosInfinity else NegInfinity)
               else Num (if 0 < x then m else - m)))"

text \<open>\<open>a + b\<close> on two numbers.\<close>

fun js_add :: "jsnum \<Rightarrow> jsnum \<Rightarrow> jsnum" where
  "js_add (Num a) (Num b) = double_round (a + b)"
| "js_add NaN _ = NaN"
| "js_add _ NaN = NaN"
| "js_add PosInfinity NegInfinity = NaN"
| "js_add NegInfinity PosInfinity = NaN"
| "js_add PosInfinity _ = PosInfinity"
| "js_add _ PosInfinity = PosInfinity"
| "js_add NegInfinity _ = NegInfinity"
| "js_add _ NegInfinity = NegInfinity"

text \<open>A timestamp variable is \<open>undefined\<close> (\<open>None\<close>) until its handler has run.\<close>

fun js_sub :: "int option \<Rightarrow> int option \<Rightarrow> jsnum" where
  "js_sub (Some a) (Some b) = Num (a - b)"
| "js_sub _ _ = NaN"

text \<open>\<open>a > 0\<close> on a number: false on \<open>NaN\<close>.\<close>

fun js_positive :: "jsnum \<Rightarrow> bool" where
  "js_positive (Num a) = (0 < a)"
| "js_positive PosInfinity = True"
| "js_positive _ = False"

text \<open>The object resolved by \<open>playStream\<close> and folded by \<open>run\<close>.\<close>

record stats =
  bytesSent :: jsnum
  bytesReceived :: jsnum
  sendTime :: jsnum
  receiveTime :: jsnum

datatype error = Error string

text \<open>
  The options of a run. The two counts are the numbers that the command line denotes
  (the source compares and uses them as numbers); they may be zero or negative.
\<close>

record options =
  numIterations :: int
  numConcurrent :: int
  verbose :: bool
  debugProtocol :: bool

section \<open>Decimal rendering of numbers in template strings\<close>

text \<open>The digit for a value below 16; the decimal rendering uses the first ten.\<close>

definition digit_char :: "nat \<Rightarrow> char" where
  "digit_char n = (if n < 16 then ''0123456789abcdef'' ! n else CHR ''?'')"

fun string_of_nat :: "nat \<Rightarrow> string" where
  "string_of_nat n =
     (if n < 10 then [digit_char n] else string_of_nat (n div 10) @ [digit_char (n mod 10)])"

declare string_of_nat.simps [simp del]

definition string_of_int :: "int \<Rightarrow> string" where
  "string_of_int i = (if i < 0 then CHR ''-'' # string_of_nat (nat (- i)) else string_of_nat (nat i))"

section \<open>The scheduler: \<open>run\<close>\<close>

text \<open>
  What one call of \<open>playStream\<close> does to the promise it returns: it resolves with a
  statistics object, rejects with an error, or never settles. The \<open>nat\<close> is the instant
  (in milliseconds) at which the promise settles; within one batch the promises settle in
  the order of these instants, and two promises with the same instant settle in the order
  in which their jobs were started.
\<close>

datatype job_outcome = Resolves nat stats | Rejects nat error | Never

fun settles :: "job_outcome \<Rightarrow> bool" where
  "settles Never = False"
| "settles _ = True"

fun settle_time :: "job_outcome \<Rightarrow> nat" where
  "settle_time (Resolves t _) = t"
| "settle_time (Rejects t _) = t"
| "settle_time Never = 0"

text \<open>
  What \<open>run\<close> does that can be observed from outside: the discard server listening and
  closing, a line on the console, a call of \<open>playStream\<close> (\<open>Start\<close>, with the job number),
  and the promise of a job resolving or rejecting.
\<close>

datatype io =
    ServerListen nat string
  | ServerClose
  | ConsoleLog string
  | Start nat
  | Resolved nat
  | Rejected nat

text \<open>The first loop of \<open>run\<close>: one deferred job per iteration, numbered from 1.\<close>

function build_jobs :: "int \<Rightarrow> nat list \<Rightarrow> nat list" where
  "build_jobs n jobs =
     (if int (length jobs) < n then build_jobs n (jobs @ [length jobs + 1]) else jobs)"
  by pat_completeness auto
termination
  by (relation "measure (\<lambda>(n, jobs). nat (n - int (length jobs)))") auto

declare build_jobs.simps [simp del]

text \<open>Calling the deferred job \<open>t()\<close>: the progress line, then \<open>playStream\<close>.\<close>

definition call_job :: "options \<Rightarrow> nat \<Rightarrow> io list" where
  "call_job opts jobNum =
     (if verbose opts \<and> numIterations opts > 1
      then [ConsoleLog (''Playing iteration '' @ string_of_nat jobNum @ ''/''
              @ string_of_int (numIterations opts))]
      else [])
     @ [Start jobNum]"

text \<open>\<open>next.map(t => t())\<close>: the jobs of the batch are called one after the other.\<close>

definition call_batch :: "options \<Rightarrow> nat list \<Rightarrow> io list" where
  "call_batch opts next = concat (map (call_job opts) next)"

text \<open>The jobs of a batch whose promise settles, in the order in which they settle.\<close>

definition settle_order :: "(nat \<Rightarrow> job_outcome) \<Rightarrow> nat list \<Rightarrow> nat list" where
  "settle_order play next =
     sort_key (\<lambda>j. settle_time (play j)) (filter (\<lambda>j. settles (play j)) next)"

text \<open>
  \<open>await Promise.all(...)\<close> while the promises settle: a resolved job pushes its statistics
  on \<open>results\<close>; the first rejection rejects the \<open>Promise.all\<close>, and \<open>run\<close> throws there.
\<close>

fun await_all ::
  "(nat \<Rightarrow> job_outcome) \<Rightarrow> nat list \<Rightarrow> stats list \<Rightarrow> io list \<Rightarrow> error option \<times> stats list \<times> io list"
where
  "await_all play [] results tr = (None, results, tr)"
| "await_all play (j # js) results tr =
     (case play j of
        Resolves t st \<Rightarrow> await_all play js (results @ [st]) (tr @ [Resolved j])
      | Rejects t e \<Rightarrow> (Some e, results, tr @ [Rejected j])
      | Never \<Rightarrow> await_all play js results tr)"

text \<open>How the second loop of \<open>run\<close> ends, when it ends.\<close>

datatype loop_end = Completed "stats list" | Threw error | Pending

text \<open>
  The second loop of \<open>run\<close>. \<open>jobs.splice(0, numConcurrent)\<close> removes and returns the first
  \<open>numConcurrent\<close> jobs (none when the count is zero or negative). The loop does not
  return (\<open>None\<close>) when it never leaves: with a count below 1 and a job left. \<open>Pending\<close> is
  the \<open>await\<close> that waits for ever on a promise that never settles.
\<close>

partial_function (option) run_batches ::
  "options \<Rightarrow> (nat \<Rightarrow> job_outcome) \<Rightarrow> nat list \<Rightarrow> stats list \<Rightarrow> io list \<Rightarrow> (loop_end \<times> io list) option"
where
  "run_batches opts play jobs results tr =
     (if length jobs > 0 then
        (let next = take (nat (numConcurrent opts)) jobs;
             jobs' = drop (nat (numConcurrent opts)) jobs
         in case await_all play (settle_order play next) results (tr @ call_batch opts next) of
              (Some e, results', tr') \<Rightarrow> Some (Threw e, tr')
            | (None, results', tr') \<Rightarrow>
                if \<exists>j \<in> set next. \<not> settles (play j) then Some (Pending, tr')
                else run_batches opts play jobs' results' tr')
      else Some (Completed results, tr))"

text \<open>The fold of \<open>results.reduce\<close>: the callback, and the initial value.\<close>

definition reducer :: "stats \<Rightarrow> stats \<Rightarrow> stats" where
  "reducer prev cur =
     cur\<lparr> bytesSent := js_add (bytesSent cur) (bytesSent prev),
          bytesReceived := js_add (bytesReceived cur) (bytesReceived prev),
          sendTime := js_add (sendTime cur) (sendTime prev),
          receiveTime := js_add (receiveTime cur) (receiveTime prev) \<rparr>"

definition zero_stats :: stats where
  "zero_stats = \<lparr> bytesSent = Num 0, bytesReceived = Num 0, sendTime = Num 0, receiveTime = Num 0 \<rparr>"

definition reduce_results :: "stats list \<Rightarrow> stats" where
  "reduce_results results = foldl reducer zero_stats results"

text \<open>How a call of \<open>run\<close> ends: it returns the aggregate, throws, or stays pending.\<close>

datatype run_end = Returned stats | Failed error | Hangs

text \<open>\<open>!serverAddress\<close>: true for a missing argument and for the empty string.\<close>

fun no_address :: "string option \<Rightarrow> bool" where
  "no_address None = True"
| "no_address (Some a) = (a = [])"

text \<open>
  The address given to \<open>playStream\<close>: the argument, or that of the discard server, which
  listens on \<open>0.0.0.0\<close> and on the port \<open>os_port\<close> that the system assigned.
\<close>

definition target_address :: "string option \<Rightarrow> nat \<Rightarrow> string" where
  "target_address serverAddress os_port =
     (if no_address serverAddress then ''0.0.0.0'' @ '':'' @ string_of_nat os_port
      else (case serverAddress of Some a \<Rightarrow> a | None \<Rightarrow> []))"

text \<open>
  \<open>run\<close>, with the behaviour of the calls of \<open>playStream\<close> as a parameter: \<open>play addr j\<close> is
  the outcome of the call made by job \<open>j\<close> with the address \<open>addr\<close>. The discard server is
  taken to get its port: \<open>listen\<close> calls back.
\<close>

definition run_with ::
  "(string \<Rightarrow> nat \<Rightarrow> job_outcome) \<Rightarrow> string option \<Rightarrow> nat \<Rightarrow> options \<Rightarrow> (run_end \<times> io list) option"
where
  "run_with play serverAddress os_port opts =
     (let nullServer = no_address serverAddress;
          tr0 = (if nullServer then [ServerListen 0 ''0.0.0.0''] else []);
          addr = target_address serverAddress os_port
      in case run_batches opts (play addr) (build_jobs (numIterations opts) []) [] tr0 of
           None \<Rightarrow> None
         | Some (Threw e, tr) \<Rightarrow> Some (Failed e, tr)
         | Some (Pending, tr) \<Rightarrow> Some (Hangs, tr)
         | Some (Completed results, tr) \<Rightarrow>
             Some (Returned (reduce_results results),
                   tr @ (if nullServer then [ServerClose] else [])))"

text \<open>
  The action of the command line on the end of \<open>run\<close>: the two lines of statistics (when
  \<open>verbose\<close>, each only for a positive count of bytes), or the error and exit code 1. The
  text that \<open>filesize\<close> and the division produce is not modelled: a line is the pair of
  numbers it is printed from.
\<close>

datatype report = SentLine jsnum jsnum | ReceivedLine jsnum jsnum | ErrorLine error | Exit nat

fun action :: "options \<Rightarrow> run_end \<Rightarrow> report list" where
  "action opts (Returned st) =
     (if verbose opts then
        (if js_positive (bytesSent st) then [SentLine (bytesSent st) (sendTime st)] else [])
        @ (if js_positive (bytesReceived st) then [ReceivedLine (bytesReceived st) (receiveTime st)] else [])
      else [])"
| "action opts (Failed err) = [ErrorLine err, Exit 1]"
| "action opts Hangs = []"

text \<open>The discard server's handler of received data, \<open>() => {}\<close>: nothing is written back.\<close>

definition nullServer_on_data :: "8 word list \<Rightarrow> 8 word list" where
  "nullServer_on_data chunk = []"

section \<open>One session: \<open>playStream\<close>\<close>

definition RECEIVE_DATA_TIMEOUT :: nat where
  "RECEIVE_DATA_TIMEOUT = 500"

text \<open>The header object that the \<open>header\<close> event of the stream processor carries.\<close>

record header =
  header_cmd :: string
  header_size :: "nat option"
  header_guid :: "8 word list"
  header_hash :: "8 word list"

text \<open>
  Library functions that the handlers call and whose code is outside this file: the
  SHA-256 of \<open>crypto\<close>, \<open>helpers.GUIDBufferToString\<close>, and the conversion of a number to a
  string by the JavaScript runtime, used here on the sizes above \<open>2 ^ 53\<close>.
\<close>

record lib =
  sha256 :: "8 word list \<Rightarrow> 8 word list"
  GUIDBufferToString :: "8 word list \<Rightarrow> string"
  Number_toString :: "nat \<Rightarrow> string"

text \<open>\<open>Buffer.toString('hex')\<close>: two lowercase hexadecimal digits for each byte.\<close>

definition hex_byte :: "8 word \<Rightarrow> string" where
  "hex_byte b = [digit_char (unat b div 16), digit_char (unat b mod 16)]"

definition hex_string :: "8 word list \<Rightarrow> string" where
  "hex_string bs = concat (map hex_byte bs)"

text \<open>\<open>Array.prototype.join\<close> on strings.\<close>

fun join :: "string \<Rightarrow> string list \<Rightarrow> string" where
  "join sep [] = []"
| "join sep [x] = x"
| "join sep (x # y # ys) = x @ sep @ join sep (y # ys)"

text \<open>
  What happens during a session, each with the reading of the clock at that moment: the
  file stream opens and closes, the stream processor emits \<open>header\<close>, \<open>data\<close> and
  \<open>dataEnd\<close>, the debugger of the outgoing stream emits \<open>debug\<close>, the timeout with a given
  handle is due, the socket emits \<open>close\<close>.
\<close>

datatype event =
    FileOpen
  | FileClose
  | Header header
  | Data "8 word list"
  | DataEnd
  | Debug "string list"
  | Timeout nat
  | SocketClose

text \<open>The hash object \<open>dataHash\<close>: \<open>undefined\<close>, updated so far with some bytes, or digested.\<close>

datatype hash_state = NoHash | Hashing "8 word list" | Digested

datatype client_op = End "8 word list"

text \<open>
  The variables of \<open>playStream\<close>, and what it has done so far. \<open>timers\<close> are the timeouts
  that the runtime holds, each with its handle and the instant from which it may fire;
  \<open>timer\<close> is the variable of the source, which holds the handle of the last timeout set.
\<close>

record session =
  timer :: "nat option"
  timers :: "(nat \<times> nat) list"
  next_timer :: nat
  bytesReceived_var :: nat
  receiveStartTime :: "nat option"
  receiveEndTime :: "nat option"
  sendStartTime :: "nat option"
  sendEndTime :: "nat option"
  dataHash :: hash_state
  once_header :: bool
  console :: string
  client_ops :: "client_op list"
  resolved :: "(nat \<times> stats) option"

definition setTimer :: "nat \<Rightarrow> session \<Rightarrow> session" where
  "setTimer now s =
     s\<lparr> timer := Some (next_timer s),
        timers := timers s @ [(next_timer s, now + RECEIVE_DATA_TIMEOUT)],
        next_timer := next_timer s + 1 \<rparr>"

definition clearTimeout :: "nat option \<Rightarrow> session \<Rightarrow> session" where
  "clearTimeout h s = s\<lparr> timers := filter (\<lambda>(k, due). Some k \<noteq> h) (timers s) \<rparr>"

text \<open>\<open>console.log\<close> ends the line; \<open>process.stdout.write\<close> does not.\<close>

definition console_log :: "string \<Rightarrow> session \<Rightarrow> session" where
  "console_log txt s = s\<lparr> console := console s @ txt @ [CHR 0x0A] \<rparr>"

definition stdout_write :: "string \<Rightarrow> session \<Rightarrow> session" where
  "stdout_write txt s = s\<lparr> console := console s @ txt \<rparr>"

text \<open>\<open>if(header.size)\<close>: false when the size is missing, and when it is 0.\<close>

fun has_size :: "nat option \<Rightarrow> bool" where
  "has_size None = False"
| "has_size (Some n) = (n \<noteq> 0)"

text \<open>
  The size as \<open>join\<close> converts it to a string. The size is a double: up to \<open>2 ^ 53\<close> every
  integer is one and is printed as its decimal digits; above, the digits are those that the
  runtime chooses for the double (\<open>2 ^ 64\<close> is printed as \<open>18446744073709552000\<close>).
\<close>

definition number_string :: "lib \<Rightarrow> nat \<Rightarrow> string" where
  "number_string l n = (if n \<le> 2 ^ 53 then string_of_nat n else Number_toString l n)"

definition debugData :: "lib \<Rightarrow> header \<Rightarrow> string list" where
  "debugData l h =
     [header_cmd h]
     @ (case header_size h of None \<Rightarrow> [] | Some n \<Rightarrow> if n \<noteq> 0 then [number_string l n] else [])
     @ [GUIDBufferToString l (header_guid h), hex_string (header_hash h)]"

text \<open>The two listeners of \<open>header\<close>: the one registered with \<open>once\<close> runs first.\<close>

definition on_header :: "options \<Rightarrow> lib \<Rightarrow> nat \<Rightarrow> header \<Rightarrow> session \<Rightarrow> session" where
  "on_header opts l now h s =
     (let s1 = (if once_header s then s\<lparr> receiveStartTime := Some now, once_header := False \<rparr> else s);
          s2 = (if debugProtocol opts then
                  (let s' = s1\<lparr> dataHash := Hashing [] \<rparr>;
                       txt = ''<<< '' @ join '' '' (debugData l h)
                   in if has_size (header_size h) then stdout_write txt s' else console_log txt s')
                else s1)
      in clearTimeout (timer s2) s2)"

text \<open>
  The listener of \<open>data\<close>. \<open>dataHash.update\<close> throws on \<open>undefined\<close> and on a hash that
  has been digested.
\<close>

definition on_data :: "options \<Rightarrow> 8 word list \<Rightarrow> session \<Rightarrow> error + session" where
  "on_data opts chunk s =
     (if debugProtocol opts then
        (case dataHash s of
           NoHash \<Rightarrow> Inl (Error ''TypeError: dataHash is undefined'')
         | Digested \<Rightarrow> Inl (Error ''Digest already called'')
         | Hashing acc \<Rightarrow>
             Inr (s\<lparr> dataHash := Hashing (acc @ chunk),
                     bytesReceived_var := bytesReceived_var s + length chunk \<rparr>))
      else Inr (s\<lparr> bytesReceived_var := bytesReceived_var s + length chunk \<rparr>))"

definition on_dataEnd :: "options \<Rightarrow> lib \<Rightarrow> nat \<Rightarrow> session \<Rightarrow> error + session" where
  "on_dataEnd opts l now s =
     (if debugProtocol opts then
        (case dataHash s of
           NoHash \<Rightarrow> Inl (Error ''TypeError: dataHash is undefined'')
         | Digested \<Rightarrow> Inl (Error ''Digest already called'')
         | Hashing acc \<Rightarrow>
             Inr (setTimer now
                   ((console_log ('' <BLOB '' @ hex_string (sha256 l acc) @ ''>'') s)
                      \<lparr> dataHash := Digested, receiveEndTime := Some now \<rparr>)))
      else Inr (setTimer now (s\<lparr> receiveEndTime := Some now \<rparr>)))"

text \<open>
  The callback of a timeout, \<open>client.end('')\<close>. A timeout fires only while the runtime
  holds it and not before it is due; an event \<open>Timeout\<close> for any other handle, or too
  early, is one that cannot happen, and changes nothing.
\<close>

definition on_timeout :: "nat \<Rightarrow> nat \<Rightarrow> session \<Rightarrow> session" where
  "on_timeout now k s =
     (if \<exists>due \<in> set (map snd (filter (\<lambda>(k', due). k' = k) (timers s))). due \<le> now
      then s\<lparr> timers := filter (\<lambda>(k', due). k' \<noteq> k) (timers s),
              client_ops := client_ops s @ [End []] \<rparr>
      else s)"

text \<open>The listener of \<open>close\<close> resolves the promise; a promise is resolved once.\<close>

definition on_close :: "nat \<Rightarrow> nat \<Rightarrow> session \<Rightarrow> session" where
  "on_close fileSize now s =
     (case resolved s of
        Some r \<Rightarrow> s
      | None \<Rightarrow>
          s\<lparr> resolved := Some (now,
                \<lparr> bytesSent = Num (int fileSize),
                  bytesReceived = Num (int (bytesReceived_var s)),
                  sendTime = js_sub (map_option int (sendEndTime s)) (map_option int (sendStartTime s)),
                  receiveTime = js_sub (map_option int (receiveEndTime s)) (map_option int (receiveStartTime s)) \<rparr>) \<rparr>)"

fun step :: "options \<Rightarrow> lib \<Rightarrow> nat \<Rightarrow> nat \<times> event \<Rightarrow> session \<Rightarrow> error + session" where
  "step opts l fileSize (now, FileOpen) s = Inr (s\<lparr> sendStartTime := Some now \<rparr>)"
| "step opts l fileSize (now, FileClose) s = Inr (s\<lparr> sendEndTime := Some now \<rparr>)"
| "step opts l fileSize (now, Header h) s = Inr (on_header opts l now h s)"
| "step opts l fileSize (now, Data chunk) s = on_data opts chunk s"
| "step opts l fileSize (now, DataEnd) s = on_dataEnd opts l now s"
| "step opts l fileSize (now, Debug data) s =
     Inr (if debugProtocol opts then console_log (''>>> '' @ join '' '' data) s else s)"
| "step opts l fileSize (now, Timeout k) s = Inr (on_timeout now k s)"
| "step opts l fileSize (now, SocketClose) s = Inr (on_close fileSize now s)"

text \<open>The events of a session, one after the other; an exception in a handler ends it.\<close>

fun run_events ::
  "options \<Rightarrow> lib \<Rightarrow> nat \<Rightarrow> (nat \<times> event) list \<Rightarrow> session \<Rightarrow> error + session"
where
  "run_events opts l fileSize [] s = Inr s"
| "run_events opts l fileSize (ev # evs) s =
     (case step opts l fileSize ev s of
        Inl err \<Rightarrow> Inl err
      | Inr s' \<Rightarrow> run_events opts l fileSize evs s')"

text \<open>
  What the outside does during one call of \<open>playStream\<close>: whether the file exists, its
  size, whether the address string is refused, the instant at which the checks are over
  (the connection is created and the first timer set then, or the call fails then), and
  the events that follow.
\<close>

record world =
  pathExists :: bool
  fileSize :: nat
  address_error :: "error option"
  setup_time :: nat
  events :: "(nat \<times> event) list"

text \<open>The state in which \<open>playStream\<close> returns its promise: the first \<open>setTimer()\<close> is done.\<close>

definition init_session :: "nat \<Rightarrow> session" where
  "init_session now =
     setTimer now
       \<lparr> timer = None, timers = [], next_timer = 0, bytesReceived_var = 0,
         receiveStartTime = None, receiveEndTime = None, sendStartTime = None, sendEndTime = None,
         dataHash = NoHash, once_header = True, console = [], client_ops = [], resolved = None \<rparr>"

text \<open>
  \<open>playStream\<close>: the promise rejects when the file is missing or the address refused; it
  resolves with what the listener of \<open>close\<close> has computed; it never settles when the
  socket never closes, or when an exception in a handler has ended the process.
\<close>

definition playStream :: "lib \<Rightarrow> string \<Rightarrow> string \<Rightarrow> options \<Rightarrow> world \<Rightarrow> job_outcome" where
  "playStream l filePath serverAddress opts w =
     (if \<not> pathExists w then Rejects (setup_time w) (Error (''Cannot find '' @ filePath))
      else case address_error w of
             Some err \<Rightarrow> Rejects (setup_time w) err
           | None \<Rightarrow>
               (case run_events opts l (fileSize w) (events w) (init_session (setup_time w)) of
                  Inl err \<Rightarrow> Never
                | Inr s \<Rightarrow> (case resolved s of Some (t, st) \<Rightarrow> Resolves t st | None \<Rightarrow> Never)))"

text \<open>\<open>run\<close>: job \<open>j\<close> plays its session in the world \<open>worlds j\<close>.\<close>

definition run ::
  "lib \<Rightarrow> (nat \<Rightarrow> world) \<Rightarrow> nat \<Rightarrow> string \<Rightarrow> string option \<Rightarrow> options \<Rightarrow> (run_end \<times> io list) option"
where
  "run l worlds os_port filePath serverAddress opts =
     run_with (\<lambda>addr j. playStream l filePath addr opts (worlds j)) serverAddress os_port opts"

section \<open>Notions used to state the properties\<close>

text \<open>
  The consecutive batches of \<open>c\<close> jobs, the last one possibly shorter: what the specification
  says the second loop partitions the jobs into.
\<close>

function splice_batches :: "nat \<Rightarrow> nat list \<Rightarrow> nat list list" where
  "splice_batches c jobs =
     (if c = 0 \<or> jobs = [] then [] else take c jobs # splice_batches c (drop c jobs))"
  by pat_completeness auto
termination
  by (relation "measure (\<lambda>(c, jobs). length jobs)") auto

declare splice_batches.simps [simp del]

text \<open>The second loop of \<open>run\<close> over a list of batches given in advance.\<close>

fun run_list ::
  "options \<Rightarrow> (nat \<Rightarrow> job_outcome) \<Rightarrow> nat list list \<Rightarrow> stats list \<Rightarrow> io list \<Rightarrow> loop_end \<times> io list"
where
  "run_list opts play [] results tr = (Completed results, tr)"
| "run_list opts play (b # bs) results tr =
     (case await_all play (settle_order play b) results (tr @ call_batch opts b) of
        (Some e, results', tr') \<Rightarrow> (Threw e, tr')
      | (None, results', tr') \<Rightarrow>
          if \<exists>j \<in> set b. \<not> settles (play j) then (Pending, tr')
          else run_list opts play bs results' tr')"

text \<open>
  The sessions in flight after a trace: those started and not yet settled. A run keeps at
  most \<open>c\<close> sessions in flight when no prefix of its trace has more.
\<close>

fun delta :: "io \<Rightarrow> int" where
  "delta (Start j) = 1"
| "delta (Resolved j) = - 1"
| "delta (Rejected j) = - 1"
| "delta _ = 0"

definition in_flight :: "io list \<Rightarrow> int" where
  "in_flight tr = sum_list (map delta tr)"

definition at_most_in_flight :: "nat \<Rightarrow> io list \<Rightarrow> bool" where
  "at_most_in_flight c tr = (\<forall>k \<le> length tr. in_flight (take k tr) \<le> int c)"

text \<open>The jobs started in a trace, in the order of their start.\<close>

fun started :: "io list \<Rightarrow> nat list" where
  "started [] = []"
| "started (Start j # tr) = j # started tr"
| "started (_ # tr) = started tr"

fun resolves :: "job_outcome \<Rightarrow> bool" where
  "resolves (Resolves t st) = True"
| "resolves _ = False"

fun rejects :: "job_outcome \<Rightarrow> bool" where
  "rejects (Rejects t e) = True"
| "rejects _ = False"

fun resolved_stats :: "job_outcome list \<Rightarrow> stats list" where
  "resolved_stats [] = []"
| "resolved_stats (Resolves t st # outs) = st # resolved_stats outs"
| "resolved_stats (_ # outs) = resolved_stats outs"

text \<open>
  A batch all of whose jobs resolve: its trace is the calls of its jobs, then their
  resolutions in the order in which they settle, and its results come in that order.
\<close>

definition all_resolve :: "(nat \<Rightarrow> job_outcome) \<Rightarrow> nat list \<Rightarrow> bool" where
  "all_resolve play b = (\<forall>j \<in> set b. resolves (play j))"

definition batch_trace :: "options \<Rightarrow> (nat \<Rightarrow> job_outcome) \<Rightarrow> nat list \<Rightarrow> io list" where
  "batch_trace opts play b = call_batch opts b @ map Resolved (settle_order play b)"

definition batch_results :: "(nat \<Rightarrow> job_outcome) \<Rightarrow> nat list \<Rightarrow> stats list" where
  "batch_results play b = resolved_stats (map play (settle_order play b))"

text \<open>The batch at which the loop stops: a job of it rejects, or never settles.\<close>

definition last_batch ::
  "options \<Rightarrow> (nat \<Rightarrow> job_outcome) \<Rightarrow> nat list \<Rightarrow> stats list \<Rightarrow> io list \<Rightarrow> loop_end \<times> io list"
where
  "last_batch opts play b results tr =
     (case await_all play (settle_order play b) results (tr @ call_batch opts b) of
        (Some e, results', tr') \<Rightarrow> (Threw e, tr')
      | (None, results', tr') \<Rightarrow> (Pending, tr'))"

text \<open>
  The elementwise sum of a list of statistics, with the addition of JavaScript, taken from
  the right of the list.
\<close>

definition js_sum :: "jsnum list \<Rightarrow> jsnum" where
  "js_sum xs = foldr js_add xs (Num 0)"

definition sum_stats :: "stats list \<Rightarrow> stats" where
  "sum_stats rs =
     \<lparr> bytesSent = js_sum (map bytesSent rs), bytesReceived = js_sum (map bytesReceived rs),
       sendTime = js_sum (map sendTime rs), receiveTime = js_sum (map receiveTime rs) \<rparr>"

fun the_num :: "jsnum \<Rightarrow> int" where
  "the_num (Num a) = a"
| "the_num _ = 0"

fun is_number :: "jsnum \<Rightarrow> bool" where
  "is_number (Num a) = True"
| "is_number _ = False"

text \<open>
  The numbers on which the additions of the fold do not round, in whatever order they are
  added: one of them is \<open>NaN\<close>, or they are all integers whose absolute values add up to at
  most \<open>2 ^ 53\<close>.
\<close>

definition safe_numbers :: "jsnum list \<Rightarrow> bool" where
  "safe_numbers xs =
     (NaN \<in> set xs \<or> (list_all is_number xs \<and> sum_list (map (\<lambda>x. \<bar>the_num x\<bar>) xs) \<le> 2 ^ 53))"

definition safe_stats :: "stats list \<Rightarrow> bool" where
  "safe_stats rs =
     (safe_numbers (map bytesSent rs) \<and> safe_numbers (map bytesReceived rs)
      \<and> safe_numbers (map sendTime rs) \<and> safe_numbers (map receiveTime rs))"

text \<open>The jobs of a run, its batches, and what it does with the discard server.\<close>

definition job_list :: "options \<Rightarrow> nat list" where
  "job_list opts = [1 ..< nat (numIterations opts) + 1]"

definition batches :: "options \<Rightarrow> nat list list" where
  "batches opts = splice_batches (nat (numConcurrent opts)) (job_list opts)"

definition listen_events :: "string option \<Rightarrow> io list" where
  "listen_events serverAddress = (if no_address serverAddress then [ServerListen 0 ''0.0.0.0''] else [])"

definition close_events :: "string option \<Rightarrow> io list" where
  "close_events serverAddress = (if no_address serverAddress then [ServerClose] else [])"

fun is_server :: "io \<Rightarrow> bool" where
  "is_server (ServerListen p h) = True"
| "is_server ServerClose = True"
| "is_server _ = False"

text \<open>
  Modelled from the spec: the stream processor of the inbound stream
  (\<open>lib/client/server_stream_processor\<close>) is not in this file. It emits, for each frame, a
  \<open>header\<close>, then, only if the header has a size, \<open>data\<close> events and one \<open>dataEnd\<close>; the next
  \<open>header\<close> comes after that \<open>dataEnd\<close>. \<open>decoder_run\<close> follows the two states of this
  decoder along the events of a session (the other events leave it where it is), and is
  \<open>None\<close> for a sequence that the decoder cannot emit.
\<close>

datatype phase = AwaitingHeader | AwaitingData

fun decoder_next :: "phase \<Rightarrow> event \<Rightarrow> phase option" where
  "decoder_next AwaitingHeader (Header h) =
     Some (case header_size h of None \<Rightarrow> AwaitingHeader | Some n \<Rightarrow> AwaitingData)"
| "decoder_next AwaitingData (Header h) = None"
| "decoder_next AwaitingHeader (Data chunk) = None"
| "decoder_next AwaitingData (Data chunk) = Some AwaitingData"
| "decoder_next AwaitingHeader DataEnd = None"
| "decoder_next AwaitingData DataEnd = Some AwaitingHeader"
| "decoder_next ph _ = Some ph"

fun decoder_run :: "phase \<Rightarrow> (nat \<times> event) list \<Rightarrow> phase option" where
  "decoder_run ph [] = Some ph"
| "decoder_run ph (ev # evs) =
     (case decoder_next ph (snd ev) of None \<Rightarrow> None | Some ph' \<Rightarrow> decoder_run ph' evs)"

text \<open>
  What the specification says of the result, read off the events of a session: the bytes
  received, and the time of the first or of the last event of a kind.
\<close>

fun is_header :: "event \<Rightarrow> bool" where
  "is_header (Header h) = True"
| "is_header _ = False"

fun is_decoded :: "event \<Rightarrow> bool" where
  "is_decoded (Header h) = True"
| "is_decoded (Data chunk) = True"
| "is_decoded DataEnd = True"
| "is_decoded _ = False"

fun chunk_length :: "event \<Rightarrow> nat" where
  "chunk_length (Data chunk) = length chunk"
| "chunk_length _ = 0"

definition received_bytes :: "(nat \<times> event) list \<Rightarrow> nat" where
  "received_bytes evs = sum_list (map (chunk_length \<circ> snd) evs)"

definition times_of :: "(event \<Rightarrow> bool) \<Rightarrow> (nat \<times> event) list \<Rightarrow> nat list" where
  "times_of P evs = map fst (filter (P \<circ> snd) evs)"

definition first_time :: "(event \<Rightarrow> bool) \<Rightarrow> (nat \<times> event) list \<Rightarrow> nat option" where
  "first_time P evs = (case times_of P evs of [] \<Rightarrow> None | t # ts \<Rightarrow> Some t)"

definition last_time :: "(event \<Rightarrow> bool) \<Rightarrow> (nat \<times> event) list \<Rightarrow> nat option" where
  "last_time P evs = (case rev (times_of P evs) of [] \<Rightarrow> None | t # ts \<Rightarrow> Some t)"

fun is_dataEnd :: "event \<Rightarrow> bool" where
  "is_dataEnd DataEnd = True"
| "is_dataEnd _ = False"

fun is_open :: "event \<Rightarrow> bool" where
  "is_open FileOpen = True"
| "is_open _ = False"

fun is_fileClose :: "event \<Rightarrow> bool" where
  "is_fileClose FileClose = True"
| "is_fileClose _ = False"

fun is_close :: "event \<Rightarrow> bool" where
  "is_close SocketClose = True"
| "is_close _ = False"

definition js_time :: "nat option \<Rightarrow> int option" where
  "js_time t = map_option int t"

text \<open>
  At most one timeout is held by the runtime, and the variable \<open>timer\<close> holds its handle; while
  a blob is being received no timeout is held, and in debug mode a hash is being updated.
\<close>

definition single_timer :: "session \<Rightarrow> bool" where
  "single_timer s = (timers s = [] \<or> (\<exists>k due. timers s = [(k, due)] \<and> timer s = Some k))"

definition session_inv :: "options \<Rightarrow> phase \<Rightarrow> session \<Rightarrow> bool" where
  "session_inv opts ph s =
     (single_timer s
      \<and> (ph = AwaitingData \<longrightarrow> timers s = [] \<and> (debugProtocol opts \<longrightarrow> (\<exists>acc. dataHash s = Hashing acc))))"


text \<open>The variables of \<open>playStream\<close> before the socket closes, in terms of the events so far.\<close>

definition tracks :: "(nat \<times> event) list \<Rightarrow> session \<Rightarrow> bool" where
  "tracks evs s =
     (bytesReceived_var s = received_bytes evs
      \<and> sendStartTime s = last_time is_open evs
      \<and> sendEndTime s = last_time is_fileClose evs
      \<and> receiveStartTime s = first_time is_header evs
      \<and> receiveEndTime s = last_time is_dataEnd evs
      \<and> once_header s = (first_time is_header evs = None)
      \<and> resolved s = None)"

section \<open>Example inputs\<close>

definition sample_stats :: stats where
  "sample_stats = \<lparr> bytesSent = Num 1024, bytesReceived = Num 64, sendTime = Num 12, receiveTime = Num 30 \<rparr>"

definition steady_play :: "string \<Rightarrow> nat \<Rightarrow> job_outcome" where
  "steady_play addr j = Resolves (100 - j) sample_stats"

definition first_job_fails :: "string \<Rightarrow> nat \<Rightarrow> job_outcome" where
  "first_job_fails addr j =
     (if j = 1 then Rejects 40 (Error ''Cannot find session.bin'') else Resolves 90 sample_stats)"

definition second_job_fails :: "string \<Rightarrow> nat \<Rightarrow> job_outcome" where
  "second_job_fails addr j =
     (if j = 2 then Rejects 40 (Error ''Cannot find session.bin'')
      else if j = 1 then Resolves 30 sample_stats else Resolves 90 sample_stats)"

text \<open>
  Sessions that receive \<open>2 ^ 53\<close> bytes and one byte; the session of job 1 receives the
  \<open>2 ^ 53\<close> bytes and is the first or the last of the three to settle.
\<close>

definition large_stats :: stats where
  "large_stats = \<lparr> bytesSent = Num 1024, bytesReceived = Num 9007199254740992, sendTime = Num 12,
                    receiveTime = Num 30 \<rparr>"

definition small_stats :: stats where
  "small_stats = \<lparr> bytesSent = Num 1024, bytesReceived = Num 1, sendTime = Num 12, receiveTime = Num 30 \<rparr>"

definition large_first :: "string \<Rightarrow> nat \<Rightarrow> job_outcome" where
  "large_first addr j = (if j = 1 then Resolves 10 large_stats else Resolves (20 + j) small_stats)"

definition large_last :: "string \<Rightarrow> nat \<Rightarrow> job_outcome" where
  "large_last addr j = (if j = 1 then Resolves 90 large_stats else Resolves (20 + j) small_stats)"

definition three_at_once :: options where
  "three_at_once = \<lparr> numIterations = 3, numConcurrent = 3, verbose = False, debugProtocol = False \<rparr>"

definition three_by_two :: options where
  "three_by_two = \<lparr> numIterations = 3, numConcurrent = 2, verbose = False, debugProtocol = False \<rparr>"

definition two_sequential :: options where
  "two_sequential = \<lparr> numIterations = 2, numConcurrent = 1, verbose = False, debugProtocol = False \<rparr>"

definition no_iterations :: options where
  "no_iterations = \<lparr> numIterations = 0, numConcurrent = 1, verbose = True, debugProtocol = False \<rparr>"

definition one_iteration :: options where
  "one_iteration = \<lparr> numIterations = 1, numConcurrent = 1, verbose = True, debugProtocol = False \<rparr>"

text \<open>
  Stand-ins for the library functions, to run the model on examples; the theorems hold for
  all functions.
\<close>

definition stub_lib :: lib where
  "stub_lib = \<lparr> sha256 = take 4, GUIDBufferToString = hex_string, Number_toString = string_of_nat \<rparr>"

definition quiet_options :: options where
  "quiet_options = \<lparr> numIterations = 1, numConcurrent = 1, verbose = True, debugProtocol = False \<rparr>"


definition helloworld :: "8 word list" where
  "helloworld = [0x68, 0x65, 0x6c, 0x6c, 0x6f, 0x77, 0x6f, 0x72, 0x6c, 0x64]"

definition blob_header :: header where
  "blob_header = \<lparr> header_cmd = ''+a'', header_size = Some 10,
                    header_guid = [0x01, 0x02], header_hash = [0xab, 0xcd] \<rparr>"


definition miss_header :: header where
  "miss_header = \<lparr> header_cmd = ''-a'', header_size = None,
                    header_guid = [0x01, 0x02], header_hash = [0xab, 0xcd] \<rparr>"

definition hit_session :: "(nat \<times> event) list" where
  "hit_session =
     [(5, FileOpen), (20, FileClose), (100, Header blob_header),
      (110, Data (take 5 helloworld)), (115, Data (drop 5 helloworld)), (120, DataEnd),
      (620, Timeout 1), (625, SocketClose)]"


definition silent_world :: world where
  "silent_world = \<lparr> pathExists = True, fileSize = 4096, address_error = None, setup_time = 0,
                     events = [(5, FileOpen), (20, FileClose), (500, Timeout 0), (501, SocketClose)] \<rparr>"

definition silent_worlds :: "nat \<Rightarrow> world" where
  "silent_worlds j = silent_world"

definition late_miss_session :: "(nat \<times> event) list" where
  "late_miss_session = [(500, Timeout 0), (700, Header miss_header)]"

definition early_miss_session :: "(nat \<times> event) list" where
  "early_miss_session = [(5, FileOpen), (100, Header miss_header), (900, Timeout 0), (950, FileClose)]"

section \<open>The loops of \<open>run\<close>\<close>

lemma build_jobs_eq: "build_jobs n jobs = jobs @ [length jobs + 1 ..< nat n + 1]"
proof (induction n jobs rule: build_jobs.induct)
  case (1 n jobs)
  show ?case
  proof (cases "int (length jobs) < n")
    case True
    then have lt: "length jobs < nat n" by linarith
    have "build_jobs n jobs = build_jobs n (jobs @ [length jobs + 1])"
      using True by (subst build_jobs.simps) simp
    also have "\<dots> = (jobs @ [length jobs + 1]) @ [length jobs + 2 ..< nat n + 1]"
      using 1 True by simp
    also have "\<dots> = jobs @ [length jobs + 1 ..< nat n + 1]"
      using lt by (simp add: upt_conv_Cons)
    finally show ?thesis .
  next
    case False
    then have "nat n \<le> length jobs" by linarith
    then show ?thesis using False by (subst build_jobs.simps) simp
  qed
qed

lemma build_jobs_Nil: "build_jobs n [] = [1 ..< nat n + 1]"
  by (simp add: build_jobs_eq)

lemma run_batches_unroll:
  assumes c: "1 \<le> numConcurrent opts"
  shows "run_batches opts play jobs results tr
         = Some (run_list opts play (splice_batches (nat (numConcurrent opts)) jobs) results tr)"
proof (induction "nat (numConcurrent opts)" jobs arbitrary: results tr rule: splice_batches.induct)
  case (1 jobs)
  show ?case
  proof (cases "jobs = []")
    case True
    then show ?thesis
      by (simp add: run_batches.simps splice_batches.simps)
  next
    case False
    have pos: "nat (numConcurrent opts) \<noteq> 0" using c by simp
    have IH: "\<And>results tr. run_batches opts play (drop (nat (numConcurrent opts)) jobs) results tr
         = Some (run_list opts play (splice_batches (nat (numConcurrent opts)) (drop (nat (numConcurrent opts)) jobs)) results tr)"
      using 1 False pos by simp
    show ?thesis
      apply (subst run_batches.simps)
      apply (subst splice_batches.simps)
      using False pos
      by (auto simp add: IH Let_def split: prod.splits option.splits)
  qed
qed

lemma run_batches_diverges_aux:
  assumes "run_batches opts play jobs results tr = Some y"
  shows "\<not> (numConcurrent opts < 1 \<and> jobs \<noteq> [])"
proof (rule run_batches.raw_induct
    [where P = "\<lambda>opts play jobs results tr y. \<not> (numConcurrent opts < 1 \<and> jobs \<noteq> [])", OF _ assms])
  fix f opts play jobs results tr y
  assume IH: "\<And>opts play jobs results tr y. f opts play jobs results tr = Some y \<Longrightarrow>
                \<not> (numConcurrent opts < 1 \<and> (jobs :: nat list) \<noteq> [])"
    and eq: "(if 0 < length jobs
      then let next = take (nat (numConcurrent opts)) jobs;
               jobs' = drop (nat (numConcurrent opts)) jobs
           in case await_all play (settle_order play next) results
                    (tr @ call_batch opts next) of
              (None, results', tr') \<Rightarrow>
                if \<exists>j\<in>set next. \<not> settles (play j) then Some (Pending, tr')
                else f opts play jobs' results' tr'
              | (Some e, results', tr') \<Rightarrow> Some (Threw e, tr')
      else Some (Completed results, tr)) = Some (y :: loop_end \<times> io list)"
  show "\<not> (numConcurrent opts < 1 \<and> jobs \<noteq> [])"
  proof
    assume a: "numConcurrent opts < 1 \<and> jobs \<noteq> []"
    then have z: "nat (numConcurrent opts) = 0" by simp
    from a eq z have "f opts play jobs results (tr @ call_batch opts []) = Some y"
      by (simp add: settle_order_def)
    from IH [OF this] a show False by simp
  qed
qed

lemma run_batches_diverges:
  "numConcurrent opts < 1 \<Longrightarrow> jobs \<noteq> [] \<Longrightarrow> run_batches opts play jobs results tr = None"
  using run_batches_diverges_aux [of opts play jobs results tr] by (cases "run_batches opts play jobs results tr") auto


subsection \<open>batches\<close>

lemma splice_batches_Nil [simp]: "splice_batches c [] = []"
  by (simp add: splice_batches.simps)

lemma splice_batches_Cons:
  "0 < c \<Longrightarrow> jobs \<noteq> [] \<Longrightarrow> splice_batches c jobs = take c jobs # splice_batches c (drop c jobs)"
  by (subst splice_batches.simps) simp

lemma concat_splice_batches: "0 < c \<Longrightarrow> concat (splice_batches c jobs) = jobs"
proof (induction c jobs rule: splice_batches.induct)
  case (1 c jobs)
  then show ?case
    by (cases "jobs = []") (simp_all add: splice_batches_Cons)
qed

lemma splice_batches_length:
  "b \<in> set (splice_batches c jobs) \<Longrightarrow> b \<noteq> [] \<and> length b \<le> c"
proof (induction c jobs rule: splice_batches.induct)
  case (1 c jobs)
  show ?case
  proof (cases "c = 0 \<or> jobs = []")
    case True
    with 1(2) show ?thesis by (simp add: splice_batches.simps)
  next
    case False
    with 1 show ?thesis by (auto simp: splice_batches_Cons)
  qed
qed

lemma splice_batches_full:
  "b \<in> set (butlast (splice_batches c jobs)) \<Longrightarrow> length b = c"
proof (induction c jobs rule: splice_batches.induct)
  case (1 c jobs)
  show ?case
  proof (cases "c = 0 \<or> jobs = []")
    case True
    with 1(2) show ?thesis by (simp add: splice_batches.simps)
  next
    case False
    then have eq: "splice_batches c jobs = take c jobs # splice_batches c (drop c jobs)"
      by (simp add: splice_batches_Cons)
    show ?thesis
    proof (cases "splice_batches c (drop c jobs) = []")
      case True
      with 1(2) eq show ?thesis by simp
    next
      case nonempty: False
      then have "drop c jobs \<noteq> []" by auto
      then have "c < length jobs" by simp
      then have "length (take c jobs) = c" by simp
      with 1 False eq nonempty show ?thesis by auto
    qed
  qed
qed

lemma concat_take_splice_batches:
  "0 < c \<Longrightarrow> concat (take k (splice_batches c jobs)) = take (k * c) jobs"
proof (induction k arbitrary: jobs)
  case 0
  then show ?case by simp
next
  case (Suc k)
  show ?case
  proof (cases "jobs = []")
    case True
    then show ?thesis by simp
  next
    case False
    with Suc show ?thesis
      by (simp add: splice_batches_Cons take_add [symmetric] add.commute)
  qed
qed

lemma nth_splice_batches:
  "0 < c \<Longrightarrow> k < length (splice_batches c jobs) \<Longrightarrow>
   splice_batches c jobs ! k = take c (drop (k * c) jobs)"
proof (induction k arbitrary: jobs)
  case 0
  then show ?case by (cases "jobs = []") (simp_all add: splice_batches_Cons)
next
  case (Suc k)
  show ?case
  proof (cases "jobs = []")
    case True
    with Suc show ?thesis by simp
  next
    case False
    with Suc show ?thesis
      by (simp add: splice_batches_Cons add.commute)
  qed
qed


subsection \<open>await\<close>

lemma set_settle_order: "set (settle_order play b) = {j \<in> set b. settles (play j)}"
  by (simp add: settle_order_def)

lemma mset_settle_order: "mset (settle_order play b) = mset (filter (\<lambda>j. settles (play j)) b)"
  by (simp add: settle_order_def)

lemma sorted_settle_order: "sorted (map (\<lambda>j. settle_time (play j)) (settle_order play b))"
  by (simp add: settle_order_def)

lemma resolves_settles: "resolves out \<Longrightarrow> settles out"
  by (cases out) simp_all

lemma rejects_settles: "rejects out \<Longrightarrow> settles out"
  by (cases out) simp_all

lemma settle_order_all_resolve:
  "all_resolve play b \<Longrightarrow> mset (settle_order play b) = mset b"
  by (simp add: mset_settle_order all_resolve_def resolves_settles)

lemma await_all_resolve:
  "\<forall>j \<in> set js. resolves (play j) \<Longrightarrow>
   await_all play js results tr = (None, results @ resolved_stats (map play js), tr @ map Resolved js)"
proof (induction js arbitrary: results tr)
  case Nil
  then show ?case by simp
next
  case (Cons j js)
  then obtain t st where "play j = Resolves t st" by (cases "play j") auto
  with Cons show ?case by simp
qed

lemma await_all_None:
  "await_all play js results tr = (None, results', tr') \<Longrightarrow> \<forall>j \<in> set js. \<not> rejects (play j)"
proof (induction js arbitrary: results tr)
  case Nil
  then show ?case by simp
next
  case (Cons j js)
  then show ?case by (cases "play j") auto
qed

lemma await_all_None_trace:
  "await_all play js results tr = (None, results', tr') \<Longrightarrow>
   tr' = tr @ map Resolved (filter (\<lambda>j. resolves (play j)) js)"
proof (induction js arbitrary: results tr)
  case Nil
  then show ?case by simp
next
  case (Cons j js)
  show ?case
  proof (cases "play j")
    case (Resolves t st)
    with Cons.prems have "await_all play js (results @ [st]) (tr @ [Resolved j]) = (None, results', tr')"
      by simp
    from Cons.IH [OF this] Resolves show ?thesis by simp
  next
    case (Rejects t e)
    with Cons.prems show ?thesis by simp
  next
    case Never
    with Cons.prems have "await_all play js results tr = (None, results', tr')"
      by simp
    from Cons.IH [OF this] Never show ?thesis by simp
  qed
qed

lemma await_all_Some:
  "await_all play js results tr = (Some e, results', tr') \<Longrightarrow>
   \<exists>pre j post t. js = pre @ j # post \<and> play j = Rejects t e
      \<and> (\<forall>i \<in> set pre. \<not> rejects (play i))
      \<and> tr' = tr @ map Resolved (filter (\<lambda>j. resolves (play j)) pre) @ [Rejected j]"
proof (induction js arbitrary: results tr)
  case Nil
  then show ?case by simp
next
  case (Cons j js)
  show ?case
  proof (cases "play j")
    case (Resolves t st)
    with Cons.prems have "await_all play js (results @ [st]) (tr @ [Resolved j]) = (Some e, results', tr')"
      by simp
    from Cons.IH [OF this] obtain pre k post u where
      h: "js = pre @ k # post" "play k = Rejects u e" "\<forall>i \<in> set pre. \<not> rejects (play i)"
      "tr' = (tr @ [Resolved j]) @ map Resolved (filter (\<lambda>j. resolves (play j)) pre) @ [Rejected k]"
      by blast
    have "j # js = (j # pre) @ k # post" using h(1) by simp
    moreover have "\<forall>i \<in> set (j # pre). \<not> rejects (play i)" using h(3) Resolves by simp
    moreover have "tr' = tr @ map Resolved (filter (\<lambda>j. resolves (play j)) (j # pre)) @ [Rejected k]"
      using h(4) Resolves by simp
    ultimately show ?thesis using h(2) by blast
  next
    case (Rejects t e')
    with Cons.prems have "e' = e" "tr' = tr @ [Rejected j]" by simp_all
    then have "j # js = [] @ j # js \<and> play j = Rejects t e \<and> (\<forall>i \<in> set []. \<not> rejects (play i))
        \<and> tr' = tr @ map Resolved (filter (\<lambda>j. resolves (play j)) []) @ [Rejected j]"
      using Rejects by simp
    then show ?thesis by blast
  next
    case Never
    with Cons.prems have "await_all play js results tr = (Some e, results', tr')"
      by simp
    from Cons.IH [OF this] obtain pre k post u where
      h: "js = pre @ k # post" "play k = Rejects u e" "\<forall>i \<in> set pre. \<not> rejects (play i)"
      "tr' = tr @ map Resolved (filter (\<lambda>j. resolves (play j)) pre) @ [Rejected k]"
      by blast
    have "j # js = (j # pre) @ k # post" using h(1) by simp
    moreover have "\<forall>i \<in> set (j # pre). \<not> rejects (play i)" using h(3) Never by simp
    moreover have "tr' = tr @ map Resolved (filter (\<lambda>j. resolves (play j)) (j # pre)) @ [Rejected k]"
      using h(4) Never by simp
    ultimately show ?thesis using h(2) by blast
  qed
qed

lemma await_all_rejects:
  "j \<in> set js \<Longrightarrow> rejects (play j) \<Longrightarrow> \<exists>e results' tr'. await_all play js results tr = (Some e, results', tr')"
proof -
  assume a: "j \<in> set js" "rejects (play j)"
  obtain r results' tr' where eq: "await_all play js results tr = (r, results', tr')"
    by (cases "await_all play js results tr") auto
  show ?thesis
  proof (cases r)
    case None
    with eq await_all_None a show ?thesis by blast
  next
    case (Some e)
    with eq show ?thesis by blast
  qed
qed

subsection \<open>the loop in closed form\<close>

lemma run_list_bad:
  assumes "\<not> all_resolve play b"
  shows "run_list opts play (b # bs) results tr = last_batch opts play b results tr"
proof -
  obtain r results' tr' where eq:
    "await_all play (settle_order play b) results (tr @ call_batch opts b) = (r, results', tr')"
    by (cases "await_all play (settle_order play b) results (tr @ call_batch opts b)") auto
  show ?thesis
  proof (cases r)
    case (Some e)
    with eq show ?thesis by (simp add: last_batch_def)
  next
    case None
    from assms obtain j where j: "j \<in> set b" "\<not> resolves (play j)"
      by (auto simp: all_resolve_def)
    have "\<not> settles (play j)"
    proof
      assume s: "settles (play j)"
      with j(2) have rj: "rejects (play j)" by (cases "play j") simp_all
      from s j(1) have "j \<in> set (settle_order play b)" by (simp add: set_settle_order)
      with rj await_all_None [OF eq [unfolded None]] show False by blast
    qed
    with j(1) eq None show ?thesis by (auto simp: last_batch_def)
  qed
qed

lemma run_list_good:
  assumes "all_resolve play b"
  shows "run_list opts play (b # bs) results tr
         = run_list opts play bs (results @ batch_results play b) (tr @ batch_trace opts play b)"
proof -
  have r: "\<forall>j \<in> set (settle_order play b). resolves (play j)"
    using assms by (simp add: set_settle_order all_resolve_def)
  have s: "\<not> (\<exists>j \<in> set b. \<not> settles (play j))"
    using assms by (auto simp: all_resolve_def resolves_settles)
  show ?thesis
    using s by (simp add: await_all_resolve [OF r] batch_results_def batch_trace_def)
qed

lemma run_list_closed:
  "run_list opts play bs results tr =
     (let good = takeWhile (all_resolve play) bs;
          results1 = results @ concat (map (batch_results play) good);
          tr1 = tr @ concat (map (batch_trace opts play) good)
      in case dropWhile (all_resolve play) bs of
           [] \<Rightarrow> (Completed results1, tr1)
         | b # rest \<Rightarrow> last_batch opts play b results1 tr1)"
proof (induction bs arbitrary: results tr)
  case Nil
  then show ?case by simp
next
  case (Cons b bs)
  show ?case
  proof (cases "all_resolve play b")
    case True
    have "run_list opts play (b # bs) results tr
          = run_list opts play bs (results @ batch_results play b) (tr @ batch_trace opts play b)"
      by (rule run_list_good [OF True])
    also note Cons.IH
    finally show ?thesis
      using True by (simp add: Let_def cong: list.case_cong)
  next
    case False
    then show ?thesis
      by (simp only: run_list_bad [OF False]) (simp add: Let_def split: list.splits)
  qed
qed


subsection \<open>sessions in flight\<close>

lemma in_flight_Nil [simp]: "in_flight [] = 0"
  by (simp add: in_flight_def)

lemma in_flight_append [simp]: "in_flight (xs @ ys) = in_flight xs + in_flight ys"
  by (simp add: in_flight_def)

lemma in_flight_call_job [simp]: "in_flight (call_job opts j) = 1"
  by (simp add: in_flight_def call_job_def)

lemma in_flight_call_batch [simp]: "in_flight (call_batch opts b) = int (length b)"
  by (induction b) (simp_all add: call_batch_def)

lemma in_flight_map_Resolved [simp]: "in_flight (map Resolved js) = - int (length js)"
  by (induction js) (simp_all add: in_flight_def)

lemma in_flight_nonneg: "\<forall>e \<in> set xs. 0 \<le> delta e \<Longrightarrow> 0 \<le> in_flight xs"
  by (induction xs) (simp_all add: in_flight_def)

lemma in_flight_nonpos: "\<forall>e \<in> set xs. delta e \<le> 0 \<Longrightarrow> in_flight xs \<le> 0"
  by (induction xs) (simp_all add: in_flight_def)

lemma in_flight_take_nonneg:
  assumes "\<forall>e \<in> set xs. 0 \<le> delta e"
  shows "in_flight (take k xs) \<le> in_flight xs"
proof -
  have "\<forall>e \<in> set (drop k xs). 0 \<le> delta e"
    using assms by (meson in_set_dropD)
  then have "0 \<le> in_flight (drop k xs)" by (rule in_flight_nonneg)
  moreover have "in_flight xs = in_flight (take k xs) + in_flight (drop k xs)"
    by (simp only: in_flight_append [symmetric] append_take_drop_id)
  ultimately show ?thesis by simp
qed

lemma in_flight_take_nonpos:
  assumes "\<forall>e \<in> set xs. delta e \<le> 0"
  shows "in_flight (take k xs) \<le> 0"
proof -
  have "\<forall>e \<in> set (take k xs). delta e \<le> 0"
    using assms by (meson in_set_takeD)
  then show ?thesis by (rule in_flight_nonpos)
qed

lemma delta_call_batch: "e \<in> set (call_batch opts b) \<Longrightarrow> 0 \<le> delta e"
  by (auto simp: call_batch_def call_job_def split: if_splits)

lemma at_most_in_flight_Nil [simp]: "at_most_in_flight c []"
  by (simp add: at_most_in_flight_def)

lemma at_most_in_flight_append:
  assumes "at_most_in_flight c xs"
    and "\<forall>k \<le> length ys. in_flight xs + in_flight (take k ys) \<le> int c"
  shows "at_most_in_flight c (xs @ ys)"
  unfolding at_most_in_flight_def
proof (intro allI impI)
  fix k assume "k \<le> length (xs @ ys)"
  show "in_flight (take k (xs @ ys)) \<le> int c"
  proof (cases "k \<le> length xs")
    case True
    with assms(1) show ?thesis by (simp add: at_most_in_flight_def)
  next
    case False
    then have "take k (xs @ ys) = xs @ take (k - length xs) ys" by simp
    moreover have "k - length xs \<le> length ys" using \<open>k \<le> length (xs @ ys)\<close> by simp
    ultimately show ?thesis using assms(2) by simp
  qed
qed

lemma at_most_in_flight_starts:
  assumes "at_most_in_flight c tr" "in_flight tr = 0" "length b \<le> c"
  shows "at_most_in_flight c (tr @ call_batch opts b)"
proof (rule at_most_in_flight_append [OF assms(1)], intro allI impI)
  fix k
  have "in_flight (take k (call_batch opts b)) \<le> in_flight (call_batch opts b)"
    by (rule in_flight_take_nonneg) (simp add: delta_call_batch)
  then show "in_flight tr + in_flight (take k (call_batch opts b)) \<le> int c"
    using assms(2,3) by simp
qed

lemma at_most_in_flight_settles:
  assumes "at_most_in_flight c tr" "in_flight tr \<le> int c" "\<forall>e \<in> set ext. delta e \<le> 0"
  shows "at_most_in_flight c (tr @ ext)"
proof (rule at_most_in_flight_append [OF assms(1)], intro allI impI)
  fix k
  have "in_flight (take k ext) \<le> 0"
    by (rule in_flight_take_nonpos [OF assms(3)])
  then show "in_flight tr + in_flight (take k ext) \<le> int c"
    using assms(2) by simp
qed

lemma at_most_in_flight_batch:
  assumes "at_most_in_flight c tr" "in_flight tr = 0" "length b \<le> c"
    and "\<forall>e \<in> set ext. delta e \<le> 0"
  shows "at_most_in_flight c (tr @ call_batch opts b @ ext)"
proof -
  have "at_most_in_flight c ((tr @ call_batch opts b) @ ext)"
  proof (rule at_most_in_flight_settles [OF at_most_in_flight_starts [OF assms(1,2,3)]])
    show "in_flight (tr @ call_batch opts b) \<le> int c" using assms(2,3) by simp
  qed (rule assms(4))
  then show ?thesis by simp
qed

lemma in_flight_batch_trace:
  "all_resolve play b \<Longrightarrow> in_flight (batch_trace opts play b) = 0"
proof -
  assume "all_resolve play b"
  then have "size (mset (settle_order play b)) = size (mset b)"
    by (simp only: settle_order_all_resolve)
  then show ?thesis by (simp add: batch_trace_def)
qed

lemma at_most_in_flight_good:
  assumes "\<forall>b \<in> set good. all_resolve play b \<and> length b \<le> c"
    and "at_most_in_flight c tr" "in_flight tr = 0"
  shows "at_most_in_flight c (tr @ concat (map (batch_trace opts play) good))
         \<and> in_flight (tr @ concat (map (batch_trace opts play) good)) = 0"
  using assms
proof (induction good arbitrary: tr)
  case Nil
  then show ?case by simp
next
  case (Cons b good)
  have 1: "at_most_in_flight c (tr @ batch_trace opts play b)"
    unfolding batch_trace_def
    by (rule at_most_in_flight_batch) (use Cons.prems in auto)
  have 2: "in_flight (tr @ batch_trace opts play b) = 0"
    using Cons.prems by (simp add: in_flight_batch_trace)
  have "at_most_in_flight c ((tr @ batch_trace opts play b) @ concat (map (batch_trace opts play) good))
         \<and> in_flight ((tr @ batch_trace opts play b) @ concat (map (batch_trace opts play) good)) = 0"
    by (rule Cons.IH) (use Cons.prems 1 2 in auto)
  then show ?case by simp
qed

lemma last_batch_trace:
  assumes "last_batch opts play b results tr = (e, tr')"
  shows "\<exists>ext. tr' = tr @ call_batch opts b @ ext \<and> (\<forall>x \<in> set ext. delta x \<le> 0) \<and> started ext = []"
proof -
  obtain r results' tr1 where eq:
    "await_all play (settle_order play b) results (tr @ call_batch opts b) = (r, results', tr1)"
    by (cases "await_all play (settle_order play b) results (tr @ call_batch opts b)") auto
  show ?thesis
  proof (cases r)
    case None
    from await_all_None_trace [OF eq [unfolded None]] assms eq None
    have "tr' = tr @ call_batch opts b @ map Resolved (filter (\<lambda>j. resolves (play j)) (settle_order play b))"
      by (simp add: last_batch_def)
    moreover have "\<forall>x \<in> set (map Resolved (filter (\<lambda>j. resolves (play j)) (settle_order play b))). delta x \<le> 0"
      by auto
    moreover have "started (map Resolved js) = []" for js by (induction js) simp_all
    ultimately show ?thesis by blast
  next
    case (Some err)
    from await_all_Some [OF eq [unfolded Some]] obtain pre j post t where
      "settle_order play b = pre @ j # post" "play j = Rejects t err" and
      h: "tr1 = (tr @ call_batch opts b) @ map Resolved (filter (\<lambda>j. resolves (play j)) pre) @ [Rejected j]"
      by blast
    have s: "started (map Resolved js @ [Rejected j]) = []" for js by (induction js) simp_all
    have "tr' = tr @ call_batch opts b @ (map Resolved (filter (\<lambda>j. resolves (play j)) pre) @ [Rejected j])"
      using h assms eq Some by (simp add: last_batch_def)
    moreover have "\<forall>x \<in> set (map Resolved (filter (\<lambda>j. resolves (play j)) pre) @ [Rejected j]). delta x \<le> 0"
      by auto
    ultimately show ?thesis using s by blast
  qed
qed

lemma started_append [simp]: "started (xs @ ys) = started xs @ started ys"
  by (induction xs rule: started.induct) simp_all

lemma started_call_batch [simp]: "started (call_batch opts b) = b"
  by (induction b) (simp_all add: call_batch_def call_job_def)

lemma started_map_Resolved [simp]: "started (map Resolved js) = []"
  by (induction js) simp_all

lemma started_batch_trace [simp]: "started (batch_trace opts play b) = b"
  by (simp add: batch_trace_def)

lemma started_good [simp]: "started (concat (map (batch_trace opts play) good)) = concat good"
  by (induction good) simp_all


subsection \<open>the fold\<close>

lemma double_round_exact: "\<bar>x\<bar> \<le> 2 ^ 53 \<Longrightarrow> double_round x = Num x"
  by (simp add: double_round_def)

lemma js_add_commute: "js_add a b = js_add b a"
  by (cases a; cases b) (simp_all add: add.commute)

lemma js_add_NaN [simp]: "js_add x NaN = NaN"
  by (cases x) simp_all

lemma js_add_exact:
  "\<bar>a\<bar> + \<bar>b\<bar> \<le> 2 ^ 53 \<Longrightarrow> js_add (Num a) (Num b) = Num (a + b)"
  by (simp add: double_round_exact)

lemma js_add_assoc_exact:
  assumes "\<bar>a\<bar> + \<bar>b\<bar> + \<bar>c\<bar> \<le> 2 ^ 53"
  shows "js_add (js_add (Num a) (Num b)) (Num c) = js_add (Num a) (js_add (Num b) (Num c))"
proof -
  have "js_add (Num a) (Num b) = Num (a + b)" "js_add (Num b) (Num c) = Num (b + c)"
    using assms by (simp_all add: double_round_exact)
  moreover have "\<bar>a + b + c\<bar> \<le> 2 ^ 53" "\<bar>a + (b + c)\<bar> \<le> 2 ^ 53"
    using assms by simp_all
  ultimately show ?thesis by (simp add: double_round_exact add.assoc)
qed

lemma js_sum_Nil [simp]: "js_sum [] = Num 0"
  by (simp add: js_sum_def)

lemma js_sum_Cons [simp]: "js_sum (x # xs) = js_add x (js_sum xs)"
  by (simp add: js_sum_def)

lemma js_sum_NaN: "NaN \<in> set xs \<Longrightarrow> js_sum xs = NaN"
  by (induction xs) auto

lemma is_number_Num: "is_number x \<Longrightarrow> x = Num (the_num x)"
  by (cases x) simp_all

lemma js_sum_exact:
  assumes "list_all is_number xs" and "sum_list (map (\<lambda>x. \<bar>the_num x\<bar>) xs) \<le> 2 ^ 53"
  shows "js_sum xs = Num (sum_list (map the_num xs))"
  using assms
proof (induction xs)
  case Nil
  then show ?case by simp
next
  case (Cons x xs)
  from Cons.prems have x: "x = Num (the_num x)" by (simp add: is_number_Num)
  have nn: "0 \<le> sum_list (map (\<lambda>x. \<bar>the_num x\<bar>) xs)"
    by (rule sum_list_nonneg) auto
  have ab: "\<bar>sum_list (map the_num xs)\<bar> \<le> sum_list (map (\<lambda>x. \<bar>the_num x\<bar>) xs)"
    using sum_list_abs [of "map the_num xs"] by (simp add: comp_def)
  from Cons.prems nn have "sum_list (map (\<lambda>x. \<bar>the_num x\<bar>) xs) \<le> 2 ^ 53" by simp
  with Cons have s: "js_sum xs = Num (sum_list (map the_num xs))" by simp
  from Cons.prems ab have b: "\<bar>the_num x\<bar> + \<bar>sum_list (map the_num xs)\<bar> \<le> 2 ^ 53" by simp
  have "js_sum (x # xs) = js_add (Num (the_num x)) (Num (sum_list (map the_num xs)))"
    using x s by simp
  also have "\<dots> = Num (the_num x + sum_list (map the_num xs))"
    by (rule js_add_exact [OF b])
  finally show ?case by simp
qed

lemma js_sum_closed:
  "safe_numbers xs \<Longrightarrow> js_sum xs = (if NaN \<in> set xs then NaN else Num (sum_list (map the_num xs)))"
  by (auto simp: safe_numbers_def js_sum_NaN js_sum_exact)

lemma safe_numbers_mset:
  assumes eq: "mset xs = mset ys" and safe: "safe_numbers xs"
  shows "safe_numbers ys"
proof -
  from eq have st: "set xs = set ys" by (rule mset_eq_setD)
  have "mset (map (\<lambda>x. \<bar>the_num x\<bar>) xs) = mset (map (\<lambda>x. \<bar>the_num x\<bar>) ys)" using eq by simp
  then have "sum_mset (mset (map (\<lambda>x. \<bar>the_num x\<bar>) xs)) = sum_mset (mset (map (\<lambda>x. \<bar>the_num x\<bar>) ys))"
    by simp
  then have "sum_list (map (\<lambda>x. \<bar>the_num x\<bar>) xs) = sum_list (map (\<lambda>x. \<bar>the_num x\<bar>) ys)"
    by (simp only: sum_mset_sum_list)
  with safe st show ?thesis by (simp add: safe_numbers_def list_all_iff)
qed

lemma js_sum_mset:
  assumes eq: "mset xs = mset ys" and safe: "safe_numbers xs"
  shows "js_sum xs = js_sum ys"
proof -
  from eq have st: "set xs = set ys" by (rule mset_eq_setD)
  have "mset (map the_num xs) = mset (map the_num ys)" using eq by simp
  then have "sum_mset (mset (map the_num xs)) = sum_mset (mset (map the_num ys))" by simp
  then have sm: "sum_list (map the_num xs) = sum_list (map the_num ys)"
    by (simp only: sum_mset_sum_list)
  from safe_numbers_mset [OF eq safe] have "safe_numbers ys" .
  from js_sum_closed [OF safe] js_sum_closed [OF this] st sm show ?thesis by simp
qed

text \<open>The fold adds each result to the sum of those before it.\<close>

lemma reduce_results_rev: "reduce_results rs = sum_stats (rev rs)"
proof (induction rs rule: rev_induct)
  case Nil
  then show ?case by (simp add: reduce_results_def sum_stats_def zero_stats_def)
next
  case (snoc r rs)
  have "reduce_results (rs @ [r]) = reducer (reduce_results rs) r"
    by (simp add: reduce_results_def)
  also have "\<dots> = reducer (sum_stats (rev rs)) r" by (simp only: snoc)
  also have "\<dots> = sum_stats (rev (rs @ [r]))"
    by (simp add: reducer_def sum_stats_def)
  finally show ?case .
qed

lemma safe_stats_mset:
  assumes eq: "mset rs = mset rs'" and safe: "safe_stats rs"
  shows "safe_stats rs'"
proof -
  have "mset (map f rs) = mset (map f rs')" for f :: "stats \<Rightarrow> jsnum"
    using eq by simp
  then have "safe_numbers (map f rs) \<Longrightarrow> safe_numbers (map f rs')" for f :: "stats \<Rightarrow> jsnum"
    by (rule safe_numbers_mset)
  with safe show ?thesis by (simp add: safe_stats_def)
qed

lemma sum_stats_mset:
  assumes eq: "mset rs = mset rs'" and safe: "safe_stats rs"
  shows "sum_stats rs = sum_stats rs'"
proof -
  have "mset (map f rs) = mset (map f rs')" for f :: "stats \<Rightarrow> jsnum"
    using eq by simp
  then have "safe_numbers (map f rs) \<Longrightarrow> js_sum (map f rs) = js_sum (map f rs')" for f :: "stats \<Rightarrow> jsnum"
    by (rule js_sum_mset)
  with safe show ?thesis by (simp add: sum_stats_def safe_stats_def)
qed

lemma reduce_results_sum: "safe_stats rs \<Longrightarrow> reduce_results rs = sum_stats rs"
  by (simp only: reduce_results_rev) (rule sum_stats_mset [of rs, symmetric], simp_all)

lemma reduce_results_mset:
  assumes eq: "mset rs = mset rs'" and safe: "safe_stats rs"
  shows "reduce_results rs = reduce_results rs'"
proof -
  have "mset rs = mset (rev rs)" "mset rs = mset (rev rs')" using eq by simp_all
  then have "sum_stats rs = sum_stats (rev rs)" "sum_stats rs = sum_stats (rev rs')"
    using safe by (auto intro: sum_stats_mset)
  then show ?thesis by (simp only: reduce_results_rev)
qed

lemma resolved_stats_append [simp]:
  "resolved_stats (xs @ ys) = resolved_stats xs @ resolved_stats ys"
  by (induction xs rule: resolved_stats.induct) simp_all

lemma mset_resolved_stats:
  "mset xs = mset ys \<Longrightarrow> mset (resolved_stats (map play xs)) = mset (resolved_stats (map play ys))"
proof -
  assume eq: "mset xs = mset ys"
  have r: "mset (resolved_stats (map play zs)) = (\<Sum>j \<in># mset zs. mset (resolved_stats [play j]))" for zs
  proof (induction zs)
    case Nil
    then show ?case by simp
  next
    case (Cons z zs)
    have "resolved_stats (map play (z # zs)) = resolved_stats [play z] @ resolved_stats (map play zs)"
      by (simp only: resolved_stats_append [symmetric]) simp
    then show ?case using Cons by simp
  qed
  show ?thesis by (simp only: r eq)
qed

lemma mset_batch_results:
  "mset (batch_results play b) = mset (resolved_stats (map play (filter (\<lambda>j. settles (play j)) b)))"
  unfolding batch_results_def
  by (rule mset_resolved_stats) (simp add: mset_settle_order)

lemma resolved_stats_filter_settles:
  "resolved_stats (map play (filter (\<lambda>j. settles (play j)) b)) = resolved_stats (map play b)"
proof (induction b)
  case Nil
  then show ?case by simp
next
  case (Cons j b)
  then show ?case by (cases "play j") simp_all
qed

lemma mset_concat_batch_results:
  "mset (concat (map (batch_results play) bs)) = mset (resolved_stats (map play (concat bs)))"
  by (induction bs) (simp_all add: mset_batch_results resolved_stats_filter_settles)


lemma run_list_completed:
  assumes "dropWhile (all_resolve play) bs = []"
  shows "run_list opts play bs results tr =
     (Completed (results @ concat (map (batch_results play) bs)),
      tr @ concat (map (batch_trace opts play) bs))"
proof -
  have "takeWhile (all_resolve play) bs = bs"
    using assms by (simp add: takeWhile_eq_all_conv)
  then show ?thesis
    by (simp only: run_list_closed [of opts play bs] Let_def assms list.case)
qed

lemma run_list_stopped:
  assumes "dropWhile (all_resolve play) bs = b # rest"
  shows "run_list opts play bs results tr =
     last_batch opts play b
       (results @ concat (map (batch_results play) (takeWhile (all_resolve play) bs)))
       (tr @ concat (map (batch_trace opts play) (takeWhile (all_resolve play) bs)))"
  by (simp only: run_list_closed [of opts play bs] Let_def assms list.case)

subsection \<open>run in closed form\<close>

lemma build_jobs_job_list: "build_jobs (numIterations opts) [] = job_list opts"
  by (simp add: build_jobs_Nil job_list_def)

lemma run_with_unroll:
  assumes "1 \<le> numConcurrent opts"
  shows "run_with play sa port opts =
     Some (case run_list opts (play (target_address sa port)) (batches opts) [] (listen_events sa) of
             (Completed results, tr) \<Rightarrow> (Returned (reduce_results results), tr @ close_events sa)
           | (Threw e, tr) \<Rightarrow> (Failed e, tr)
           | (Pending, tr) \<Rightarrow> (Hangs, tr))"
  by (simp add: run_with_def build_jobs_job_list run_batches_unroll [OF assms] batches_def
      listen_events_def close_events_def split: prod.splits loop_end.splits)

lemma last_batch_cases:
  assumes "\<not> all_resolve play b"
  obtains (threw) pre j post t err where
      "settle_order play b = pre @ j # post" "play j = Rejects t err"
      "\<forall>i \<in> set pre. \<not> rejects (play i)"
      "last_batch opts play b results tr =
         (Threw err, tr @ call_batch opts b @ map Resolved (filter (\<lambda>j. resolves (play j)) pre) @ [Rejected j])"
  | (pending) "\<forall>j \<in> set b. \<not> rejects (play j)" "\<exists>j \<in> set b. play j = Never"
      "last_batch opts play b results tr =
         (Pending, tr @ call_batch opts b @ map Resolved (filter (\<lambda>j. resolves (play j)) (settle_order play b)))"
proof -
  obtain r results' tr1 where eq:
    "await_all play (settle_order play b) results (tr @ call_batch opts b) = (r, results', tr1)"
    by (cases "await_all play (settle_order play b) results (tr @ call_batch opts b)") auto
  show ?thesis
  proof (cases r)
    case None
    have nr: "\<forall>j \<in> set b. \<not> rejects (play j)"
    proof
      fix j assume j: "j \<in> set b"
      show "\<not> rejects (play j)"
      proof
        assume rj: "rejects (play j)"
        then have "j \<in> set (settle_order play b)"
          using j by (simp add: set_settle_order rejects_settles)
        with rj await_all_None [OF eq [unfolded None]] show False by blast
      qed
    qed
    from assms obtain j where j: "j \<in> set b" "\<not> resolves (play j)"
      by (auto simp: all_resolve_def)
    with nr have "play j = Never" by (cases "play j") auto
    with j(1) have ex: "\<exists>j \<in> set b. play j = Never" by blast
    have "last_batch opts play b results tr =
         (Pending, tr @ call_batch opts b @ map Resolved (filter (\<lambda>j. resolves (play j)) (settle_order play b)))"
      using await_all_None_trace [OF eq [unfolded None]] eq None by (simp add: last_batch_def)
    with nr ex show ?thesis by (rule pending)
  next
    case (Some err)
    from await_all_Some [OF eq [unfolded Some]] obtain pre j post t where
      h: "settle_order play b = pre @ j # post" "play j = Rejects t err"
        "\<forall>i \<in> set pre. \<not> rejects (play i)"
        "tr1 = (tr @ call_batch opts b) @ map Resolved (filter (\<lambda>j. resolves (play j)) pre) @ [Rejected j]"
      by blast
    have "last_batch opts play b results tr =
         (Threw err, tr @ call_batch opts b @ map Resolved (filter (\<lambda>j. resolves (play j)) pre) @ [Rejected j])"
      using h(4) eq Some by (simp add: last_batch_def)
    with h(1,2,3) show ?thesis by (rule threw)
  qed
qed

lemma run_with_cases:
  assumes c: "1 \<le> numConcurrent opts"
  obtains
    (returned)
      "dropWhile (all_resolve (play (target_address sa port))) (batches opts) = []"
      "run_with play sa port opts =
         Some (Returned (reduce_results (concat (map (batch_results (play (target_address sa port))) (batches opts)))),
               listen_events sa
               @ concat (map (batch_trace opts (play (target_address sa port))) (batches opts))
               @ close_events sa)"
  | (failed) b rest pre j post t err where
      "dropWhile (all_resolve (play (target_address sa port))) (batches opts) = b # rest"
      "settle_order (play (target_address sa port)) b = pre @ j # post"
      "play (target_address sa port) j = Rejects t err"
      "\<forall>i \<in> set pre. \<not> rejects (play (target_address sa port) i)"
      "run_with play sa port opts =
         Some (Failed err,
               listen_events sa
               @ concat (map (batch_trace opts (play (target_address sa port)))
                   (takeWhile (all_resolve (play (target_address sa port))) (batches opts)))
               @ call_batch opts b
               @ map Resolved (filter (\<lambda>j. resolves (play (target_address sa port) j)) pre)
               @ [Rejected j])"
  | (hangs) b rest where
      "dropWhile (all_resolve (play (target_address sa port))) (batches opts) = b # rest"
      "\<forall>j \<in> set b. \<not> rejects (play (target_address sa port) j)"
      "\<exists>j \<in> set b. play (target_address sa port) j = Never"
      "run_with play sa port opts =
         Some (Hangs,
               listen_events sa
               @ concat (map (batch_trace opts (play (target_address sa port)))
                   (takeWhile (all_resolve (play (target_address sa port))) (batches opts)))
               @ call_batch opts b
               @ map Resolved (filter (\<lambda>j. resolves (play (target_address sa port) j))
                   (settle_order (play (target_address sa port)) b)))"
proof (cases "dropWhile (all_resolve (play (target_address sa port))) (batches opts)")
  case Nil
  have "run_with play sa port opts =
         Some (Returned (reduce_results (concat (map (batch_results (play (target_address sa port))) (batches opts)))),
               listen_events sa
               @ concat (map (batch_trace opts (play (target_address sa port))) (batches opts))
               @ close_events sa)"
    by (simp add: run_with_unroll [OF c] run_list_completed [OF Nil])
  with Nil show ?thesis by (rule returned)
next
  case (Cons b rest)
  have bad: "\<not> all_resolve (play (target_address sa port)) b"
    using Cons by (metis hd_dropWhile list.distinct(1) list.sel(1))
  have rl: "run_list opts (play (target_address sa port)) (batches opts) [] (listen_events sa)
        = last_batch opts (play (target_address sa port)) b
            (concat (map (batch_results (play (target_address sa port)))
               (takeWhile (all_resolve (play (target_address sa port))) (batches opts))))
            (listen_events sa @ concat (map (batch_trace opts (play (target_address sa port)))
               (takeWhile (all_resolve (play (target_address sa port))) (batches opts))))"
    by (simp add: run_list_stopped [OF Cons])
  from bad show ?thesis
  proof (cases rule: last_batch_cases
      [where opts = opts
         and results = "concat (map (batch_results (play (target_address sa port)))
               (takeWhile (all_resolve (play (target_address sa port))) (batches opts)))"
         and tr = "listen_events sa @ concat (map (batch_trace opts (play (target_address sa port)))
               (takeWhile (all_resolve (play (target_address sa port))) (batches opts)))"])
    case (threw pre j post t err)
    show ?thesis
      by (rule failed [OF Cons threw(1,2,3)]) (simp add: run_with_unroll [OF c] rl threw(4))
  next
    case pending
    show ?thesis
      by (rule hangs [OF Cons pending(1,2)]) (simp add: run_with_unroll [OF c] rl pending(3))
  qed
qed


subsection \<open>where the loop stops\<close>

lemma stopped_batch:
  assumes "dropWhile P bs = b # rest"
  shows "length (takeWhile P bs) < length bs"
    and "bs ! length (takeWhile P bs) = b"
    and "take (Suc (length (takeWhile P bs))) bs = takeWhile P bs @ [b]"
    and "\<not> P b"
proof -
  have bs: "bs = takeWhile P bs @ b # rest"
    using assms by (metis takeWhile_dropWhile_id)
  then have "length bs = length (takeWhile P bs) + Suc (length rest)"
    by (metis length_append length_Cons)
  then show "length (takeWhile P bs) < length bs" by simp
  show "bs ! length (takeWhile P bs) = b"
    by (subst bs) (simp only: nth_append_length)
  have "take (Suc (length (takeWhile P bs))) (takeWhile P bs @ b # rest) = takeWhile P bs @ [b]"
    by simp
  then show "take (Suc (length (takeWhile P bs))) bs = takeWhile P bs @ [b]"
    using bs by simp
  show "\<not> P b"
    using assms by (metis hd_dropWhile list.distinct(1) list.sel(1))
qed

lemma good_batches: "b \<in> set (takeWhile P bs) \<Longrightarrow> P b \<and> b \<in> set bs"
  by (metis set_takeWhileD)

lemma concat_batches: "1 \<le> numConcurrent opts \<Longrightarrow> concat (batches opts) = job_list opts"
  by (simp add: batches_def concat_splice_batches)

lemma batches_length:
  "b \<in> set (batches opts) \<Longrightarrow> b \<noteq> [] \<and> length b \<le> nat (numConcurrent opts)"
  unfolding batches_def by (rule splice_batches_length)

lemma batches_full:
  "b \<in> set (butlast (batches opts)) \<Longrightarrow> length b = nat (numConcurrent opts)"
  unfolding batches_def by (rule splice_batches_full)

lemma in_take_drop_upt:
  assumes "x \<in> set (take c (drop d [1 ..< m]))"
  shows "d < x \<and> x \<le> d + c"
proof -
  from assms obtain i where i: "i < length (take c (drop d [1 ..< m]))"
    "x = take c (drop d [1 ..< m]) ! i"
    by (metis in_set_conv_nth)
  from i(1) have ic: "i < c" and il: "d + i < length [1 ..< m]" by auto
  from i(2) ic have "x = drop d [1 ..< m] ! i" by simp
  also have "\<dots> = [1 ..< m] ! (d + i)" using il by simp
  also have "\<dots> = 1 + (d + i)" using il by (simp only: nth_upt length_upt)
  finally show ?thesis using ic by simp
qed

lemma job_in_batch:
  assumes c: "1 \<le> numConcurrent opts" and k: "k < length (batches opts)"
    and x: "x \<in> set (batches opts ! k)"
  shows "(x - 1) div nat (numConcurrent opts) = k"
proof -
  let ?c = "nat (numConcurrent opts)"
  have pos: "0 < ?c" using c by simp
  have "batches opts ! k = take ?c (drop (k * ?c) [1 ..< nat (numIterations opts) + 1])"
    using nth_splice_batches [OF pos] k by (simp only: batches_def job_list_def)
  with x have "k * ?c < x \<and> x \<le> k * ?c + ?c"
    by (simp only: in_take_drop_upt)
  then have "x - 1 = (x - 1 - k * ?c) + k * ?c \<and> x - 1 - k * ?c < ?c"
    by arith
  then obtain i where i: "x - 1 = i + k * ?c" "i < ?c"
    by blast
  then have "(x - 1) div ?c = (i + k * ?c) div ?c" by simp
  also have "\<dots> = k" using i(2) by simp
  finally show ?thesis .
qed

lemma job_up_to_batch:
  assumes c: "1 \<le> numConcurrent opts"
    and x: "x \<in> set (concat (take (Suc k) (batches opts)))"
  shows "(x - 1) div nat (numConcurrent opts) \<le> k"
proof -
  let ?c = "nat (numConcurrent opts)"
  have pos: "0 < ?c" using c by simp
  have "concat (take (Suc k) (batches opts)) = take (Suc k * ?c) (drop 0 [1 ..< nat (numIterations opts) + 1])"
    using concat_take_splice_batches [OF pos] by (simp only: batches_def job_list_def drop_0)
  with x have "0 < x \<and> x \<le> 0 + Suc k * ?c"
    by (simp only: in_take_drop_upt)
  then have "x - 1 < Suc k * ?c" by arith
  then have "(x - 1) div ?c < Suc k"
    using pos by (simp add: less_mult_imp_div_less)
  then show ?thesis by simp
qed

subsection \<open>events of the discard server\<close>

lemma is_server_call_batch: "e \<in> set (call_batch opts b) \<Longrightarrow> \<not> is_server e"
  by (auto simp: call_batch_def call_job_def split: if_splits)

lemma is_server_batch_trace: "e \<in> set (batch_trace opts play b) \<Longrightarrow> \<not> is_server e"
  by (auto simp: batch_trace_def dest: is_server_call_batch)

lemma is_server_good: "e \<in> set (concat (map (batch_trace opts play) good)) \<Longrightarrow> \<not> is_server e"
  by (auto dest: is_server_batch_trace)

lemma in_flight_listen [simp]: "in_flight (listen_events sa) = 0"
  by (simp add: listen_events_def in_flight_def)

lemma started_listen [simp]: "started (listen_events sa) = []"
  by (simp add: listen_events_def)

lemma started_close [simp]: "started (close_events sa) = []"
  by (simp add: close_events_def)

lemma at_most_in_flight_listen [simp]: "at_most_in_flight c (listen_events sa)"
proof -
  have "\<forall>e \<in> set (listen_events sa). delta e \<le> 0" by (simp add: listen_events_def)
  then have "at_most_in_flight c ([] @ listen_events sa)"
    by (intro at_most_in_flight_settles) simp_all
  then show ?thesis by simp
qed

lemma run_with_no_jobs:
  assumes "numIterations opts \<le> 0"
  shows "run_with play sa port opts = Some (Returned zero_stats, listen_events sa @ close_events sa)"
proof -
  have "build_jobs (numIterations opts) [] = []"
    using assms by (simp add: build_jobs_Nil)
  then show ?thesis
    by (simp add: run_with_def run_batches.simps reduce_results_def listen_events_def close_events_def)
qed

section \<open>Properties of \<open>run\<close>\<close>

lemmas eval_round = double_round_def bit_length.simps Let_def

lemmas eval_run =
  run_with_def run_batches.simps build_jobs.simps target_address_def call_batch_def call_job_def
  settle_order_def reduce_results_def reducer_def zero_stats_def double_round_exact

lemma all_jobs_resolve_iff:
  assumes c: "1 \<le> numConcurrent opts"
  shows "dropWhile (all_resolve p) (batches opts) = [] \<longleftrightarrow> (\<forall>j \<in> set (job_list opts). resolves (p j))"
proof -
  have "set (job_list opts) = (\<Union>b \<in> set (batches opts). set b)"
    by (simp only: concat_batches [OF c, symmetric] set_concat)
  then show ?thesis
    by (auto simp: dropWhile_eq_Nil_conv all_resolve_def)
qed

lemma at_most_in_flight_close:
  assumes "at_most_in_flight c tr" "in_flight tr = 0"
  shows "at_most_in_flight c (tr @ close_events sa)"
proof (rule at_most_in_flight_settles [OF assms(1)])
  show "in_flight tr \<le> int c" using assms(2) by simp
  show "\<forall>e \<in> set (close_events sa). delta e \<le> 0" by (simp add: close_events_def)
qed

text \<open>
  Claim C1, as amended. With \<open>numConcurrent \<ge> 1\<close> the call of \<open>run\<close> ends (it returns, throws,
  or waits on a promise that never settles). The jobs \<open>1 .. numIterations\<close> are cut into
  consecutive batches of \<open>numConcurrent\<close> jobs, the last one possibly shorter. The trace is
  the traces of the first \<open>k\<close> batches, each with all its jobs called and then all of them
  resolved, followed either by the closing of the server (every batch done) or by the calls of
  batch \<open>k\<close> and some of its promises settling: no job of a batch is called before every
  job of the batch before has resolved. At no prefix of the trace are more than
  \<open>numConcurrent\<close> sessions in flight. When every job resolves, exactly the jobs
  \<open>1 .. numIterations\<close> are started, in this order; otherwise the jobs started are those of
  the batches up to the one that failed or hangs.
\<close>

theorem run_bounded_concurrency:
  assumes c: "1 \<le> numConcurrent opts"
  shows "\<exists>e tr k ext.
      run_with play sa port opts = Some (e, tr)
    \<and> concat (batches opts) = [1 ..< nat (numIterations opts) + 1]
    \<and> (\<forall>b \<in> set (batches opts). b \<noteq> [] \<and> length b \<le> nat (numConcurrent opts))
    \<and> (\<forall>b \<in> set (butlast (batches opts)). length b = nat (numConcurrent opts))
    \<and> at_most_in_flight (nat (numConcurrent opts)) tr
    \<and> k \<le> length (batches opts)
    \<and> tr = listen_events sa
           @ concat (map (batch_trace opts (play (target_address sa port))) (take k (batches opts)))
           @ ext
    \<and> (\<forall>b \<in> set (take k (batches opts)).
          all_resolve (play (target_address sa port)) b
          \<and> mset (settle_order (play (target_address sa port)) b) = mset b)
    \<and> (if \<forall>j \<in> set [1 ..< nat (numIterations opts) + 1]. resolves (play (target_address sa port) j)
       then (\<exists>st. e = Returned st) \<and> k = length (batches opts) \<and> ext = close_events sa
            \<and> started tr = [1 ..< nat (numIterations opts) + 1]
       else (\<forall>st. e \<noteq> Returned st) \<and> k < length (batches opts)
            \<and> (\<exists>settled. ext = call_batch opts (batches opts ! k) @ settled \<and> started settled = [])
            \<and> started tr = concat (take (Suc k) (batches opts)))"
proof -
  let ?p = "play (target_address sa port)"
  let ?bs = "batches opts"
  let ?c = "nat (numConcurrent opts)"
  let ?good = "takeWhile (all_resolve ?p) ?bs"
  have p1: "concat ?bs = [1 ..< nat (numIterations opts) + 1]"
    using concat_batches [OF c] by (simp only: job_list_def)
  have p2: "\<forall>b \<in> set ?bs. b \<noteq> [] \<and> length b \<le> ?c"
    using batches_length by blast
  have p3: "\<forall>b \<in> set (butlast ?bs). length b = ?c"
    using batches_full by blast
  have good: "\<forall>b \<in> set ?good. all_resolve ?p b \<and> length b \<le> ?c"
    using p2 by (meson set_takeWhileD)
  have gtr: "at_most_in_flight ?c (listen_events sa @ concat (map (batch_trace opts ?p) ?good))
       \<and> in_flight (listen_events sa @ concat (map (batch_trace opts ?p) ?good)) = 0"
    by (rule at_most_in_flight_good [OF good]) simp_all
  have good2: "\<forall>b \<in> set ?good. all_resolve ?p b \<and> mset (settle_order ?p b) = mset b"
    using good by (simp add: settle_order_all_resolve)
  have iff: "dropWhile (all_resolve ?p) ?bs = [] \<longleftrightarrow>
        (\<forall>j \<in> set [1 ..< nat (numIterations opts) + 1]. resolves (?p j))"
    using all_jobs_resolve_iff [OF c] by (simp only: job_list_def)
  from c show ?thesis
  proof (cases rule: run_with_cases [where play = play and sa = sa and port = port])
    case returned
    have all: "?good = ?bs" using returned(1) by (simp add: takeWhile_eq_all_conv)
    let ?tr = "listen_events sa @ concat (map (batch_trace opts ?p) (take (length ?bs) ?bs)) @ close_events sa"
    have f1: "run_with play sa port opts
          = Some (Returned (reduce_results (concat (map (batch_results ?p) ?bs))), ?tr)"
      using returned(2) by simp
    have f5: "at_most_in_flight ?c ?tr"
      using at_most_in_flight_close [of ?c "listen_events sa @ concat (map (batch_trace opts ?p) ?bs)" sa]
        gtr all by simp
    have f8: "\<forall>b \<in> set (take (length ?bs) ?bs). all_resolve ?p b \<and> mset (settle_order ?p b) = mset b"
      using good2 all by simp
    have st: "started ?tr = [1 ..< nat (numIterations opts) + 1]"
      using p1 by simp
    have f9: "(if \<forall>j \<in> set [1 ..< nat (numIterations opts) + 1]. resolves (?p j)
       then (\<exists>st. Returned (reduce_results (concat (map (batch_results ?p) ?bs))) = Returned st)
            \<and> length ?bs = length ?bs \<and> close_events sa = close_events sa
            \<and> started ?tr = [1 ..< nat (numIterations opts) + 1]
       else (\<forall>st. Returned (reduce_results (concat (map (batch_results ?p) ?bs))) \<noteq> Returned st)
            \<and> length ?bs < length ?bs
            \<and> (\<exists>settled. close_events sa = call_batch opts (?bs ! length ?bs) @ settled \<and> started settled = [])
            \<and> started ?tr = concat (take (Suc (length ?bs)) ?bs))"
    proof -
      have allr: "\<forall>j \<in> set [1 ..< nat (numIterations opts) + 1]. resolves (?p j)"
        using iff returned(1) by blast
      show ?thesis by (subst if_P [OF allr]) (use st in blast)
    qed
    show ?thesis
      apply (rule exI [of _ "Returned (reduce_results (concat (map (batch_results ?p) ?bs)))"])
      apply (rule exI [of _ ?tr])
      apply (rule exI [of _ "length ?bs"])
      apply (rule exI [of _ "close_events sa"])
      apply (intro conjI)
              apply (rule f1)
             apply (rule p1)
            apply (rule p2)
           apply (rule p3)
          apply (rule f5)
         apply (rule order_refl)
        apply (rule refl)
       apply (rule f8)
      apply (rule f9)
      done
  next
    case (failed b rest pre j post t err)
    note sb = stopped_batch [OF failed(1)]
    let ?k = "length ?good"
    let ?settled = "map Resolved (filter (\<lambda>j. resolves (?p j)) pre) @ [Rejected j]"
    let ?ext = "call_batch opts (?bs ! ?k) @ ?settled"
    let ?tr = "listen_events sa @ concat (map (batch_trace opts ?p) (take ?k ?bs)) @ ?ext"
    have tk: "take ?k ?bs = ?good" by (rule takeWhile_eq_take [symmetric])
    have f1: "run_with play sa port opts = Some (Failed err, ?tr)"
      using failed(5) sb(2) tk by simp
    have bl: "length b \<le> ?c" using p2 sb(1,2) by (metis nth_mem)
    have neg: "\<forall>x \<in> set ?settled. delta x \<le> 0" by auto
    have "at_most_in_flight ?c ((listen_events sa @ concat (map (batch_trace opts ?p) ?good))
            @ call_batch opts b @ ?settled)"
      by (rule at_most_in_flight_batch [OF _ _ bl neg]) (use gtr in simp_all)
    then have f5: "at_most_in_flight ?c ?tr" using sb(2) tk by simp
    have f8: "\<forall>b \<in> set (take ?k ?bs). all_resolve ?p b \<and> mset (settle_order ?p b) = mset b"
      using good2 tk by simp
    have nall: "\<not> (\<forall>j \<in> set [1 ..< nat (numIterations opts) + 1]. resolves (?p j))"
      using iff failed(1) by (metis list.distinct(1))
    have ss: "started ?settled = []" by simp
    have st: "started ?tr = concat (take (Suc ?k) ?bs)"
      using sb(2,3) tk by simp
    have f9: "(if \<forall>j \<in> set [1 ..< nat (numIterations opts) + 1]. resolves (?p j)
       then (\<exists>st. Failed err = Returned st) \<and> ?k = length ?bs \<and> ?ext = close_events sa
            \<and> started ?tr = [1 ..< nat (numIterations opts) + 1]
       else (\<forall>st. Failed err \<noteq> Returned st) \<and> ?k < length ?bs
            \<and> (\<exists>settled. ?ext = call_batch opts (?bs ! ?k) @ settled \<and> started settled = [])
            \<and> started ?tr = concat (take (Suc ?k) ?bs))"
      by (subst if_not_P [OF nall]) (use sb(1) ss st in blast)
    show ?thesis
      apply (rule exI [of _ "Failed err"])
      apply (rule exI [of _ ?tr])
      apply (rule exI [of _ ?k])
      apply (rule exI [of _ ?ext])
      apply (intro conjI)
              apply (rule f1)
             apply (rule p1)
            apply (rule p2)
           apply (rule p3)
          apply (rule f5)
         apply (rule less_imp_le [OF sb(1)])
        apply (rule refl)
       apply (rule f8)
      apply (rule f9)
      done
  next
    case (hangs b rest)
    note sb = stopped_batch [OF hangs(1)]
    let ?k = "length ?good"
    let ?settled = "map Resolved (filter (\<lambda>j. resolves (?p j)) (settle_order ?p b))"
    let ?ext = "call_batch opts (?bs ! ?k) @ ?settled"
    let ?tr = "listen_events sa @ concat (map (batch_trace opts ?p) (take ?k ?bs)) @ ?ext"
    have tk: "take ?k ?bs = ?good" by (rule takeWhile_eq_take [symmetric])
    have f1: "run_with play sa port opts = Some (Hangs, ?tr)"
      using hangs(4) sb(2) tk by simp
    have bl: "length b \<le> ?c" using p2 sb(1,2) by (metis nth_mem)
    have neg: "\<forall>x \<in> set ?settled. delta x \<le> 0" by auto
    have "at_most_in_flight ?c ((listen_events sa @ concat (map (batch_trace opts ?p) ?good))
            @ call_batch opts b @ ?settled)"
      by (rule at_most_in_flight_batch [OF _ _ bl neg]) (use gtr in simp_all)
    then have f5: "at_most_in_flight ?c ?tr" using sb(2) tk by simp
    have f8: "\<forall>b \<in> set (take ?k ?bs). all_resolve ?p b \<and> mset (settle_order ?p b) = mset b"
      using good2 tk by simp
    have nall: "\<not> (\<forall>j \<in> set [1 ..< nat (numIterations opts) + 1]. resolves (?p j))"
      using iff hangs(1) by (metis list.distinct(1))
    have ss: "started ?settled = []" by simp
    have st: "started ?tr = concat (take (Suc ?k) ?bs)"
      using sb(2,3) tk by simp
    have f9: "(if \<forall>j \<in> set [1 ..< nat (numIterations opts) + 1]. resolves (?p j)
       then (\<exists>st. Hangs = Returned st) \<and> ?k = length ?bs \<and> ?ext = close_events sa
            \<and> started ?tr = [1 ..< nat (numIterations opts) + 1]
       else (\<forall>st. Hangs \<noteq> Returned st) \<and> ?k < length ?bs
            \<and> (\<exists>settled. ?ext = call_batch opts (?bs ! ?k) @ settled \<and> started settled = [])
            \<and> started ?tr = concat (take (Suc ?k) ?bs))"
      by (subst if_not_P [OF nall]) (use sb(1) ss st in blast)
    show ?thesis
      apply (rule exI [of _ "Hangs"])
      apply (rule exI [of _ ?tr])
      apply (rule exI [of _ ?k])
      apply (rule exI [of _ ?ext])
      apply (intro conjI)
              apply (rule f1)
             apply (rule p1)
            apply (rule p2)
           apply (rule p3)
          apply (rule f5)
         apply (rule less_imp_le [OF sb(1)])
        apply (rule refl)
       apply (rule f8)
      apply (rule f9)
      done
  qed
qed


lemma steady_run:
  "run_with steady_play (Some ''127.0.0.1:8126'') 0 three_by_two
   = Some (Returned \<lparr> bytesSent = Num 3072, bytesReceived = Num 192, sendTime = Num 36, receiveTime = Num 90 \<rparr>,
           [Start 1, Start 2, Resolved 2, Resolved 1, Start 3, Resolved 3])"
  by (simp add: eval_run three_by_two_def steady_play_def sample_stats_def)

text \<open>Three iterations, two at a time: the second job settles before the first.\<close>

theorem run_bounded_concurrency_witness:
  "1 \<le> numConcurrent three_by_two
   \<and> at_most_in_flight 2 [Start 1, Start 2, Resolved 2, Resolved 1, Start 3, Resolved 3]"
proof -
  have h: "1 \<le> numConcurrent three_by_two" by (simp add: three_by_two_def)
  from run_bounded_concurrency [OF h, of steady_play "Some ''127.0.0.1:8126''" 0]
  obtain e tr where "run_with steady_play (Some ''127.0.0.1:8126'') 0 three_by_two = Some (e, tr)"
    and "at_most_in_flight (nat (numConcurrent three_by_two)) tr"
    by blast
  with steady_run h show ?thesis by (simp add: three_by_two_def)
qed

text \<open>
  Claim C1 as stated fails when a job fails: of two iterations run one at a time, the first
  fails and the second is never started.
\<close>

theorem run_starts_all_counterexample:
  "0 \<le> numIterations two_sequential \<and> 1 \<le> numConcurrent two_sequential
   \<and> run_with first_job_fails (Some ''127.0.0.1:8126'') 0 two_sequential
       = Some (Failed (Error ''Cannot find session.bin''), [Start 1, Rejected 1])
   \<and> length (started [Start 1, Rejected 1]) \<noteq> nat (numIterations two_sequential)"
  by (simp add: eval_run two_sequential_def first_job_fails_def)

subsection \<open>failure\<close>

lemma Start_started: "Start j \<in> set tr \<longleftrightarrow> j \<in> set (started tr)"
  by (induction tr rule: started.induct) auto

lemma ServerClose_is_server: "\<forall>x \<in> set tr. \<not> is_server x \<Longrightarrow> ServerClose \<notin> set tr"
  by auto

lemma good_resolves:
  "j \<in> set (concat (takeWhile (all_resolve p) bs)) \<Longrightarrow> resolves (p j)"
proof -
  assume "j \<in> set (concat (takeWhile (all_resolve p) bs))"
  then obtain b where "b \<in> set (takeWhile (all_resolve p) bs)" "j \<in> set b" by auto
  then show ?thesis using set_takeWhileD [of b "all_resolve p" bs] by (simp add: all_resolve_def)
qed

text \<open>
  Claim C2. When a job that was started rejects, \<open>run\<close> throws the error of a job of the same
  batch that rejected no later (that job's own error when it is the first of its batch to
  reject); the rejection is the last thing that happens in \<open>run\<close>: no job of a later batch is
  started, the server is not closed, no statistics are returned, and the command line prints
  the error and exits with code 1.
\<close>

theorem run_fail_fast:
  assumes c: "1 \<le> numConcurrent opts"
  shows "\<exists>e tr. run_with play sa port opts = Some (e, tr)
     \<and> (\<forall>j t err. Start j \<in> set tr \<and> play (target_address sa port) j = Rejects t err \<longrightarrow>
         (\<exists>j' t' err' pre.
              e = Failed err' \<and> play (target_address sa port) j' = Rejects t' err' \<and> t' \<le> t
            \<and> (j' - 1) div nat (numConcurrent opts) = (j - 1) div nat (numConcurrent opts)
            \<and> tr = pre @ [Rejected j']
            \<and> (\<forall>i. Start i \<in> set tr \<longrightarrow>
                  (i - 1) div nat (numConcurrent opts) \<le> (j - 1) div nat (numConcurrent opts))
            \<and> ServerClose \<notin> set tr
            \<and> action opts e = [ErrorLine err', Exit 1]))"
proof -
  let ?p = "play (target_address sa port)"
  let ?bs = "batches opts"
  let ?c = "nat (numConcurrent opts)"
  let ?good = "takeWhile (all_resolve ?p) ?bs"
  from c show ?thesis
  proof (cases rule: run_with_cases [where play = play and sa = sa and port = port])
    case returned
    have "\<not> (Start j \<in> set (listen_events sa @ concat (map (batch_trace opts ?p) ?bs) @ close_events sa)
             \<and> ?p j = Rejects t err)" for j t err
    proof
      assume a: "Start j \<in> set (listen_events sa @ concat (map (batch_trace opts ?p) ?bs) @ close_events sa)
             \<and> ?p j = Rejects t err"
      have all: "?good = ?bs" using returned(1) by (simp add: takeWhile_eq_all_conv)
      from a have "j \<in> set (started (listen_events sa @ concat (map (batch_trace opts ?p) ?bs) @ close_events sa))"
        by (simp only: Start_started)
      then have "j \<in> set (concat ?bs)" by simp
      then have "j \<in> set (concat ?good)" by (simp only: all)
      then have "resolves (?p j)" by (rule good_resolves)
      with a show False by simp
    qed
    with returned(2) show ?thesis by blast
  next
    case (hangs b rest)
    let ?tr = "listen_events sa @ concat (map (batch_trace opts ?p) ?good) @ call_batch opts b
       @ map Resolved (filter (\<lambda>j. resolves (?p j)) (settle_order ?p b))"
    have "\<not> (Start j \<in> set ?tr \<and> ?p j = Rejects t err)" for j t err
    proof
      assume a: "Start j \<in> set ?tr \<and> ?p j = Rejects t err"
      then have "j \<in> set (started ?tr)" by (simp only: Start_started)
      then have "j \<in> set (concat ?good) \<or> j \<in> set b" by simp
      then show False
      proof
        assume "j \<in> set (concat ?good)"
        then have "resolves (?p j)" by (rule good_resolves)
        with a show False by simp
      next
        assume "j \<in> set b"
        with hangs(2) a show False by auto
      qed
    qed
    with hangs(4) show ?thesis by blast
  next
    case (failed b rest pre jr post tr' err')
    note sb = stopped_batch [OF failed(1)]
    let ?k = "length ?good"
    let ?pre = "listen_events sa @ concat (map (batch_trace opts ?p) ?good) @ call_batch opts b
       @ map Resolved (filter (\<lambda>j. resolves (?p j)) pre)"
    let ?tr = "?pre @ [Rejected jr]"
    have run: "run_with play sa port opts = Some (Failed err', ?tr)"
      using failed(5) by simp
    have st: "started ?tr = concat (take (Suc ?k) ?bs)"
      using sb(3) by simp
    have jr_b: "jr \<in> set b"
    proof -
      have "jr \<in> set (settle_order ?p b)" using failed(2) by simp
      then show ?thesis by (simp add: set_settle_order)
    qed
    have jr_k: "(jr - 1) div ?c = ?k"
      by (rule job_in_batch [OF c sb(1)]) (simp add: sb(2) jr_b)
    have nosrv: "ServerClose \<notin> set ?tr"
    proof -
      have "ServerClose \<notin> set (listen_events sa)" by (simp add: listen_events_def)
      moreover have "ServerClose \<notin> set (concat (map (batch_trace opts ?p) ?good))"
        using is_server_good [of ServerClose opts ?p ?good] by auto
      moreover have "ServerClose \<notin> set (call_batch opts b)"
        using is_server_call_batch [of ServerClose opts b] by auto
      ultimately show ?thesis by auto
    qed
    have upto: "\<forall>i. Start i \<in> set ?tr \<longrightarrow> (i - 1) div ?c \<le> ?k"
    proof (intro allI impI)
      fix i assume "Start i \<in> set ?tr"
      then have "i \<in> set (concat (take (Suc ?k) ?bs))"
        by (simp only: Start_started st)
      then show "(i - 1) div ?c \<le> ?k" by (rule job_up_to_batch [OF c])
    qed
    have main: "\<exists>j' t' err'' pre'.
              Failed err' = Failed err'' \<and> ?p j' = Rejects t' err'' \<and> t' \<le> t
            \<and> (j' - 1) div ?c = (j - 1) div ?c
            \<and> ?tr = pre' @ [Rejected j']
            \<and> (\<forall>i. Start i \<in> set ?tr \<longrightarrow> (i - 1) div ?c \<le> (j - 1) div ?c)
            \<and> ServerClose \<notin> set ?tr
            \<and> action opts (Failed err') = [ErrorLine err'', Exit 1]"
      if a: "Start j \<in> set ?tr \<and> ?p j = Rejects t err" for j t err
    proof -
      from a have "j \<in> set (started ?tr)" by (simp only: Start_started)
      then have "j \<in> set (concat ?good) \<or> j \<in> set b" by simp
      then have jb: "j \<in> set b"
      proof
        assume "j \<in> set (concat ?good)"
        then have "resolves (?p j)" by (rule good_resolves)
        with a show ?thesis by simp
      qed
      have j_k: "(j - 1) div ?c = ?k"
        by (rule job_in_batch [OF c sb(1)]) (simp add: sb(2) jb)
      have "j \<in> set (settle_order ?p b)"
        using jb a by (simp add: set_settle_order)
      moreover have "j \<notin> set pre" using failed(4) a by auto
      ultimately have jin: "j = jr \<or> j \<in> set post" using failed(2) by auto
      have "sorted (map (\<lambda>j. settle_time (?p j)) (pre @ jr # post))"
        using sorted_settle_order [of ?p b] failed(2) by simp
      then have "\<forall>x \<in> set post. settle_time (?p jr) \<le> settle_time (?p x)"
        by (simp add: sorted_append)
      with jin have "settle_time (?p jr) \<le> settle_time (?p j)" by auto
      then have le: "tr' \<le> t" using failed(3) a by simp
      show ?thesis
        apply (rule exI [of _ jr], rule exI [of _ tr'], rule exI [of _ err'], rule exI [of _ ?pre])
        using failed(3) le jr_k j_k upto nosrv by simp
    qed
    show ?thesis
      apply (rule exI [of _ "Failed err'"], rule exI [of _ ?tr])
      apply (rule conjI [OF run])
      using main by blast
  qed
qed


lemma failing_run:
  "run_with second_job_fails (Some ''127.0.0.1:8126'') 0 three_by_two
   = Some (Failed (Error ''Cannot find session.bin''), [Start 1, Start 2, Resolved 1, Rejected 2])"
  by (simp add: eval_run three_by_two_def second_job_fails_def sample_stats_def)

text \<open>Three iterations, two at a time; the second job fails after the first has resolved.\<close>

theorem run_fail_fast_witness:
  "1 \<le> numConcurrent three_by_two
   \<and> Start 2 \<in> set [Start 1, Start 2, Resolved 1, Rejected 2]
   \<and> second_job_fails ''127.0.0.1:8126'' 2 = Rejects 40 (Error ''Cannot find session.bin'')
   \<and> (\<exists>err. run_with second_job_fails (Some ''127.0.0.1:8126'') 0 three_by_two
               = Some (Failed err, [Start 1, Start 2, Resolved 1, Rejected 2])
          \<and> action three_by_two (Failed err) = [ErrorLine err, Exit 1])
   \<and> Start 3 \<notin> set [Start 1, Start 2, Resolved 1, Rejected 2]"
proof -
  have h: "1 \<le> numConcurrent three_by_two" by (simp add: three_by_two_def)
  have a: "target_address (Some ''127.0.0.1:8126'') 0 = ''127.0.0.1:8126''"
    by (simp add: target_address_def)
  have r: "second_job_fails ''127.0.0.1:8126'' 2 = Rejects 40 (Error ''Cannot find session.bin'')"
    by (simp add: second_job_fails_def)
  from run_fail_fast [OF h, of second_job_fails "Some ''127.0.0.1:8126''" 0] failing_run
  have "\<forall>j t err. Start j \<in> set [Start 1, Start 2, Resolved 1, Rejected 2]
          \<and> second_job_fails ''127.0.0.1:8126'' j = Rejects t err \<longrightarrow>
         (\<exists>err'. Failed (Error ''Cannot find session.bin'') = Failed err'
            \<and> action three_by_two (Failed (Error ''Cannot find session.bin'')) = [ErrorLine err', Exit 1])"
    unfolding a by auto
  with r have "\<exists>err'. Failed (Error ''Cannot find session.bin'') = Failed err'
            \<and> action three_by_two (Failed (Error ''Cannot find session.bin'')) = [ErrorLine err', Exit 1]"
    by auto
  with h r failing_run show ?thesis by auto
qed

subsection \<open>the aggregate\<close>

lemma js_sum_Num:
  "sum_list (map abs xs) \<le> 2 ^ 53 \<Longrightarrow> js_sum (map Num xs) = Num (sum_list xs)"
  using js_sum_exact [of "map Num xs"] by (simp add: comp_def list_all_iff)

lemma js_add_assoc_safe:
  assumes "safe_numbers [a, b, c]"
  shows "js_add (js_add a b) c = js_add a (js_add b c)"
proof (cases "NaN \<in> set [a, b, c]")
  case True
  then show ?thesis by auto
next
  case False
  with assms obtain x y z where "a = Num x" "b = Num y" "c = Num z"
    and "\<bar>x\<bar> + \<bar>y\<bar> + \<bar>z\<bar> \<le> 2 ^ 53"
    by (cases a; cases b; cases c) (simp_all add: safe_numbers_def)
  then show ?thesis by (simp only: js_add_assoc_exact)
qed

lemma run_with_fold:
  assumes c: "1 \<le> numConcurrent opts"
    and all: "\<forall>j \<in> set [1 ..< nat (numIterations opts) + 1]. resolves (play (target_address sa port) j)"
  shows "\<exists>tr rs. run_with play sa port opts = Some (Returned (reduce_results rs), tr)
           \<and> mset rs = mset (resolved_stats
                (map (play (target_address sa port)) [1 ..< nat (numIterations opts) + 1]))"
proof -
  let ?p = "play (target_address sa port)"
  have d: "dropWhile (all_resolve ?p) (batches opts) = []"
    using all_jobs_resolve_iff [OF c, of ?p] all by (simp only: job_list_def)
  have m: "mset (concat (map (batch_results ?p) (batches opts)))
        = mset (resolved_stats (map ?p [1 ..< nat (numIterations opts) + 1]))"
    using concat_batches [OF c] by (simp only: mset_concat_batch_results job_list_def)
  from c show ?thesis
  proof (cases rule: run_with_cases [where play = play and sa = sa and port = port])
    case returned
    with m show ?thesis by blast
  next
    case (failed b rest pre j post t err)
    with d show ?thesis by simp
  next
    case (hangs b rest)
    with d show ?thesis by simp
  qed
qed

text \<open>
  Claim C3, as amended. When every job resolves and, in each of the four fields, one of the
  results is \<open>NaN\<close> or the results are integers whose absolute values add up to at most
  \<open>2 ^ 53\<close>, \<open>run\<close> returns the elementwise sum of the statistics of the jobs
  \<open>1 .. numIterations\<close>, whatever the order in which they settled; on such results the fold of
  \<open>reduce\<close> is that sum, and gives the same value on any reordering of the list. The addition
  of the fold is commutative; it is associative on three such numbers. The sum of such
  integers is their integer sum, and a sum is \<open>NaN\<close> as soon as one of the numbers is \<open>NaN\<close>.
\<close>

theorem run_aggregate_sum:
  assumes c: "1 \<le> numConcurrent opts"
    and all: "\<forall>j \<in> set [1 ..< nat (numIterations opts) + 1]. resolves (play (target_address sa port) j)"
    and safe: "safe_stats (resolved_stats
                (map (play (target_address sa port)) [1 ..< nat (numIterations opts) + 1]))"
  shows "(\<exists>tr. run_with play sa port opts
            = Some (Returned (sum_stats (resolved_stats
                (map (play (target_address sa port)) [1 ..< nat (numIterations opts) + 1]))), tr))
       \<and> (\<forall>rs. safe_stats rs \<longrightarrow> reduce_results rs = sum_stats rs)
       \<and> (\<forall>rs rs'. safe_stats rs \<longrightarrow> mset rs = mset rs' \<longrightarrow> reduce_results rs = reduce_results rs')
       \<and> (\<forall>a b. js_add a b = js_add b a)
       \<and> (\<forall>a b c. safe_numbers [a, b, c] \<longrightarrow> js_add (js_add a b) c = js_add a (js_add b c))
       \<and> (\<forall>xs. sum_list (map abs xs) \<le> 2 ^ 53 \<longrightarrow> js_sum (map Num xs) = Num (sum_list xs))
       \<and> (\<forall>xs. NaN \<in> set xs \<longrightarrow> js_sum xs = NaN)"
proof -
  let ?p = "play (target_address sa port)"
  let ?jobs = "[1 ..< nat (numIterations opts) + 1]"
  from run_with_fold [where play = play and sa = sa and port = port, OF c all] obtain tr rs where
    r: "run_with play sa port opts = Some (Returned (reduce_results rs), tr)"
    and m: "mset rs = mset (resolved_stats (map ?p ?jobs))"
    by blast
  from m have "reduce_results (resolved_stats (map ?p ?jobs)) = reduce_results rs"
    by (intro reduce_results_mset [OF _ safe]) simp
  then have "reduce_results rs = sum_stats (resolved_stats (map ?p ?jobs))"
    using reduce_results_sum [OF safe] by simp
  with r have 1: "\<exists>tr. run_with play sa port opts
            = Some (Returned (sum_stats (resolved_stats (map ?p ?jobs))), tr)"
    by simp
  have 2: "\<forall>rs rs'. safe_stats rs \<longrightarrow> mset rs = mset rs' \<longrightarrow> reduce_results rs = reduce_results rs'"
    by (intro allI impI) (erule reduce_results_mset)
  have 3: "\<forall>rs. safe_stats rs \<longrightarrow> reduce_results rs = sum_stats rs"
    by (intro allI impI) (erule reduce_results_sum)
  have 4: "\<forall>xs. sum_list (map abs xs) \<le> 2 ^ 53 \<longrightarrow> js_sum (map Num xs) = Num (sum_list xs)"
    by (intro allI impI) (erule js_sum_Num)
  have 5: "\<forall>xs. NaN \<in> set xs \<longrightarrow> js_sum xs = NaN"
    by (simp add: js_sum_NaN)
  have 6: "\<forall>a b. js_add a b = js_add b a"
    by (simp add: js_add_commute)
  have 7: "\<forall>a b c. safe_numbers [a, b, c] \<longrightarrow> js_add (js_add a b) c = js_add a (js_add b c)"
    by (intro allI impI) (erule js_add_assoc_safe)
  show ?thesis
    by (intro conjI) (rule 1, rule 3, rule 2, rule 6, rule 7, rule 4, rule 5)
qed

text \<open>Three sessions with the same statistics.\<close>

theorem run_aggregate_sum_witness:
  "1 \<le> numConcurrent three_by_two
   \<and> resolves (steady_play ''127.0.0.1:8126'' 1) \<and> resolves (steady_play ''127.0.0.1:8126'' 2)
   \<and> resolves (steady_play ''127.0.0.1:8126'' 3)
   \<and> safe_stats [sample_stats, sample_stats, sample_stats]
   \<and> sum_stats [sample_stats, sample_stats, sample_stats]
       = \<lparr> bytesSent = Num 3072, bytesReceived = Num 192, sendTime = Num 36, receiveTime = Num 90 \<rparr>"
proof -
  have h: "1 \<le> numConcurrent three_by_two" by (simp add: three_by_two_def)
  have a: "target_address (Some ''127.0.0.1:8126'') 0 = ''127.0.0.1:8126''"
    by (simp add: target_address_def)
  have r: "\<forall>j \<in> set [1 ..< nat (numIterations three_by_two) + 1].
             resolves (steady_play (target_address (Some ''127.0.0.1:8126'') 0) j)"
    by (simp add: steady_play_def)
  have js: "[1 ..< nat (numIterations three_by_two) + 1] = [1, 2, 3]"
    by (simp add: three_by_two_def upt_conv_Cons)
  have rs: "resolved_stats (map (steady_play ''127.0.0.1:8126'') [1, 2, 3])
        = [sample_stats, sample_stats, sample_stats]"
    by (simp add: steady_play_def)
  have sf: "safe_stats [sample_stats, sample_stats, sample_stats]"
    by (simp add: safe_stats_def safe_numbers_def sample_stats_def)
  then have sf': "safe_stats (resolved_stats (map (steady_play (target_address (Some ''127.0.0.1:8126'') 0))
      [1 ..< nat (numIterations three_by_two) + 1]))"
    by (simp only: a js rs)
  from run_aggregate_sum [where opts = three_by_two and play = steady_play
      and sa = "Some ''127.0.0.1:8126''" and port = 0, OF h r sf'] steady_run
  have "sum_stats (resolved_stats (map (steady_play ''127.0.0.1:8126'') [1, 2, 3]))
        = \<lparr> bytesSent = Num 3072, bytesReceived = Num 192, sendTime = Num 36, receiveTime = Num 90 \<rparr>"
    unfolding a js by auto
  then show ?thesis using h r sf unfolding a by (simp add: steady_play_def)
qed

text \<open>
  Claim C3 as stated fails from \<open>2 ^ 53\<close> on, where the addition of doubles rounds. Three
  sessions run together and resolve: one has received \<open>2 ^ 53\<close> bytes, the two others one byte
  each. When the large one settles first the aggregate counts \<open>2 ^ 53\<close> bytes; when it settles
  last, \<open>2 ^ 53 + 2\<close>. Each job has the same statistics in the two runs, and the addition is
  not associative on them.
\<close>

theorem run_aggregate_sum_counterexample:
  "map_option fst (run_with large_first (Some ''127.0.0.1:8126'') 0 three_at_once)
     = Some (Returned \<lparr> bytesSent = Num 3072, bytesReceived = Num 9007199254740992,
                         sendTime = Num 36, receiveTime = Num 90 \<rparr>)
   \<and> map_option fst (run_with large_last (Some ''127.0.0.1:8126'') 0 three_at_once)
     = Some (Returned \<lparr> bytesSent = Num 3072, bytesReceived = Num 9007199254740994,
                         sendTime = Num 36, receiveTime = Num 90 \<rparr>)
   \<and> resolved_stats (map (large_first ''127.0.0.1:8126'') [1, 2, 3])
     = resolved_stats (map (large_last ''127.0.0.1:8126'') [1, 2, 3])
   \<and> reduce_results [large_stats, small_stats, small_stats]
     \<noteq> reduce_results [small_stats, small_stats, large_stats]
   \<and> js_add (js_add (Num 9007199254740992) (Num 1)) (Num 1) = Num 9007199254740992
   \<and> js_add (Num 9007199254740992) (js_add (Num 1) (Num 1)) = Num 9007199254740994"
  by (simp add: eval_run eval_round three_at_once_def large_first_def large_last_def
      large_stats_def small_stats_def)

subsection \<open>no iteration\<close>

text \<open>
  Claim C6, as amended. With no iteration \<open>run\<close> returns four zeros and starts no session;
  with a server address it does nothing at all, and without one it still opens the discard
  server and closes it.
\<close>

theorem run_zero_iterations:
  assumes "numIterations opts = 0"
  shows "run_with play sa port opts
         = Some (Returned \<lparr> bytesSent = Num 0, bytesReceived = Num 0, sendTime = Num 0, receiveTime = Num 0 \<rparr>,
                 if no_address sa then [ServerListen 0 ''0.0.0.0'', ServerClose] else [])"
  using run_with_no_jobs [of opts play sa port] assms
  by (simp add: zero_stats_def listen_events_def close_events_def)

text \<open>No iteration, with a server address.\<close>

theorem run_zero_iterations_witness:
  "numIterations no_iterations = 0
   \<and> run_with steady_play (Some ''127.0.0.1:8126'') 0 no_iterations
       = Some (Returned \<lparr> bytesSent = Num 0, bytesReceived = Num 0, sendTime = Num 0, receiveTime = Num 0 \<rparr>, [])"
proof -
  have h: "numIterations no_iterations = 0" by (simp add: no_iterations_def)
  show ?thesis
    using h run_zero_iterations [OF h, of steady_play "Some ''127.0.0.1:8126''" 0] by simp
qed

text \<open>
  Claim C6 as stated fails without a server address: the discard server listens and is closed.
\<close>

theorem run_zero_iterations_counterexample:
  "numIterations no_iterations = 0
   \<and> run_with steady_play None 8126 no_iterations
       = Some (Returned \<lparr> bytesSent = Num 0, bytesReceived = Num 0, sendTime = Num 0, receiveTime = Num 0 \<rparr>,
               [ServerListen 0 ''0.0.0.0'', ServerClose])
   \<and> [ServerListen 0 ''0.0.0.0'', ServerClose] \<noteq> []"
  by (simp add: eval_run no_iterations_def)


subsection \<open>the discard server\<close>

lemma is_server_map_Resolved: "x \<in> set (map Resolved js) \<Longrightarrow> \<not> is_server x"
  by auto

lemma run_with_shape:
  assumes c: "1 \<le> numConcurrent opts \<or> numIterations opts \<le> 0"
  shows "\<exists>e mid. run_with play sa port opts
            = Some (e, listen_events sa @ mid @ (if \<exists>st. e = Returned st then close_events sa else []))
     \<and> (\<forall>x \<in> set mid. \<not> is_server x)
     \<and> ((\<exists>st. e = Returned st) \<longrightarrow> in_flight mid = 0 \<and> started mid = job_list opts)"
proof (cases "numIterations opts \<le> 0")
  case True
  then have "job_list opts = []" by (simp add: job_list_def)
  then have "run_with play sa port opts
            = Some (Returned zero_stats, listen_events sa @ [] @ (if \<exists>st. Returned zero_stats = Returned st then close_events sa else []))
     \<and> (\<forall>x \<in> set []. \<not> is_server x)
     \<and> ((\<exists>st. Returned zero_stats = Returned st) \<longrightarrow> in_flight [] = 0 \<and> started [] = job_list opts)"
    using run_with_no_jobs [OF True] by simp
  then show ?thesis by blast
next
  case False
  with c have c1: "1 \<le> numConcurrent opts" by simp
  let ?p = "play (target_address sa port)"
  let ?good = "takeWhile (all_resolve ?p) (batches opts)"
  from c1 show ?thesis
  proof (cases rule: run_with_cases [where play = play and sa = sa and port = port])
    case returned
    let ?mid = "concat (map (batch_trace opts ?p) (batches opts))"
    have all: "?good = batches opts" using returned(1) by (simp add: takeWhile_eq_all_conv)
    have "\<forall>b \<in> set ?good. all_resolve ?p b \<and> length b \<le> nat (numConcurrent opts)"
      using batches_length [of _ opts] by (meson set_takeWhileD)
    from at_most_in_flight_good [OF this, of "[]" opts]
    have inf: "in_flight ?mid = 0" using all by simp
    have st: "started ?mid = job_list opts" using concat_batches [OF c1] by simp
    have ns: "\<forall>x \<in> set ?mid. \<not> is_server x" using is_server_good by blast
    have "run_with play sa port opts
            = Some (Returned (reduce_results (concat (map (batch_results ?p) (batches opts)))),
                listen_events sa @ ?mid @ (if \<exists>st. Returned (reduce_results (concat (map (batch_results ?p) (batches opts)))) = Returned st then close_events sa else []))"
      using returned(2) by simp
    with ns inf st show ?thesis by blast
  next
    case (failed b rest pre j post t err)
    let ?mid = "concat (map (batch_trace opts ?p) ?good) @ call_batch opts b
          @ map Resolved (filter (\<lambda>j. resolves (?p j)) pre) @ [Rejected j]"
    have ns: "\<forall>x \<in> set ?mid. \<not> is_server x"
      using is_server_good [of _ opts ?p ?good] is_server_call_batch [of _ opts b] by auto
    have "run_with play sa port opts
            = Some (Failed err, listen_events sa @ ?mid @ (if \<exists>st. Failed err = Returned st then close_events sa else []))"
      using failed(5) by simp
    with ns show ?thesis by blast
  next
    case (hangs b rest)
    let ?mid = "concat (map (batch_trace opts ?p) ?good) @ call_batch opts b
          @ map Resolved (filter (\<lambda>j. resolves (?p j)) (settle_order ?p b))"
    have ns: "\<forall>x \<in> set ?mid. \<not> is_server x"
      using is_server_good [of _ opts ?p ?good] is_server_call_batch [of _ opts b] by auto
    have "run_with play sa port opts
            = Some (Hangs, listen_events sa @ ?mid @ (if \<exists>st. Hangs = Returned st then close_events sa else []))"
      using hangs(4) by simp
    with ns show ?thesis by blast
  qed
qed

text \<open>
  Claim C8, as amended. Without a server address the first thing \<open>run\<close> does is to make the
  discard server listen on \<open>0.0.0.0\<close>, port 0 (the system chooses the port, and the sessions
  get the address \<open>0.0.0.0:port\<close>); the server discards what it receives. When \<open>run\<close> returns,
  also with no iteration, closing the server is the last thing it does, after every session
  has been started and has settled. When \<open>run\<close> throws or hangs it does not close the server.
  With a server address there is no event of the server.
\<close>

theorem null_server_lifecycle:
  assumes c: "1 \<le> numConcurrent opts \<or> numIterations opts \<le> 0"
  shows "\<exists>e tr mid. run_with play sa port opts = Some (e, tr)
     \<and> (\<forall>x \<in> set mid. \<not> is_server x)
     \<and> (no_address sa \<longrightarrow>
          target_address sa port = ''0.0.0.0:'' @ string_of_nat port
        \<and> (if \<exists>st. e = Returned st
           then tr = [ServerListen 0 ''0.0.0.0''] @ mid @ [ServerClose] \<and> in_flight mid = 0
                \<and> started mid = [1 ..< nat (numIterations opts) + 1]
           else tr = [ServerListen 0 ''0.0.0.0''] @ mid))
     \<and> (\<not> no_address sa \<longrightarrow> tr = mid)
     \<and> nullServer_on_data chunk = []"
proof -
  from run_with_shape [OF c, of play sa port] obtain e mid where
    run: "run_with play sa port opts
            = Some (e, listen_events sa @ mid @ (if \<exists>st. e = Returned st then close_events sa else []))"
    and ns: "\<forall>x \<in> set mid. \<not> is_server x"
    and ret: "(\<exists>st. e = Returned st) \<longrightarrow> in_flight mid = 0 \<and> started mid = job_list opts"
    by blast
  let ?tr = "listen_events sa @ mid @ (if \<exists>st. e = Returned st then close_events sa else [])"
  have a: "no_address sa \<longrightarrow>
          target_address sa port = ''0.0.0.0:'' @ string_of_nat port
        \<and> (if \<exists>st. e = Returned st
           then ?tr = [ServerListen 0 ''0.0.0.0''] @ mid @ [ServerClose] \<and> in_flight mid = 0
                \<and> started mid = [1 ..< nat (numIterations opts) + 1]
           else ?tr = [ServerListen 0 ''0.0.0.0''] @ mid)"
    using ret by (simp add: listen_events_def close_events_def target_address_def job_list_def)
  have b: "\<not> no_address sa \<longrightarrow> ?tr = mid"
    by (simp add: listen_events_def close_events_def)
  have d: "nullServer_on_data chunk = []" by (simp add: nullServer_on_data_def)
  show ?thesis
    apply (rule exI [of _ e], rule exI [of _ ?tr], rule exI [of _ mid])
    apply (intro conjI)
        apply (rule run)
       apply (rule ns)
      apply (rule a)
     apply (rule b)
    apply (rule d)
    done
qed

lemma failing_local_run:
  "run_with first_job_fails None 8126 one_iteration
   = Some (Failed (Error ''Cannot find session.bin''), [ServerListen 0 ''0.0.0.0'', Start 1, Rejected 1])"
  by (simp add: eval_run one_iteration_def first_job_fails_def)

text \<open>
  Claim C8 as stated fails for a run that ends in failure: the server is never closed.
\<close>

theorem null_server_lifecycle_counterexample:
  "no_address None
   \<and> run_with first_job_fails None 8126 one_iteration
       = Some (Failed (Error ''Cannot find session.bin''), [ServerListen 0 ''0.0.0.0'', Start 1, Rejected 1])
   \<and> ServerClose \<notin> set [ServerListen 0 ''0.0.0.0'', Start 1, Rejected 1]"
  using failing_local_run by simp

lemma local_run:
  "run_with steady_play None 8126 one_iteration
   = Some (Returned sample_stats, [ServerListen 0 ''0.0.0.0'', Start 1, Resolved 1, ServerClose])"
  by (simp add: eval_run one_iteration_def steady_play_def sample_stats_def)

text \<open>One iteration against the discard server.\<close>

theorem null_server_lifecycle_witness:
  "(1 \<le> numConcurrent one_iteration \<or> numIterations one_iteration \<le> 0)
   \<and> no_address None
   \<and> (\<exists>mid. [ServerListen 0 ''0.0.0.0'', Start 1, Resolved 1, ServerClose]
              = [ServerListen 0 ''0.0.0.0''] @ mid @ [ServerClose]
          \<and> in_flight mid = 0 \<and> started mid = [1])"
proof -
  have h: "1 \<le> numConcurrent one_iteration \<or> numIterations one_iteration \<le> 0"
    by (simp add: one_iteration_def)
  from null_server_lifecycle [OF h, of steady_play None 8126] local_run
  obtain mid where "[ServerListen 0 ''0.0.0.0'', Start 1, Resolved 1, ServerClose]
        = [ServerListen 0 ''0.0.0.0''] @ mid @ [ServerClose]"
    "in_flight mid = 0" "started mid = [1 ..< nat (numIterations one_iteration) + 1]"
    by auto
  then show ?thesis using h by (auto simp: one_iteration_def)
qed

section \<open>Properties of \<open>playStream\<close>\<close>

lemma run_events_append:
  "run_events opts l fs (xs @ ys) s =
     (case run_events opts l fs xs s of Inl err \<Rightarrow> Inl err | Inr s' \<Rightarrow> run_events opts l fs ys s')"
  by (induction xs arbitrary: s) (simp_all split: sum.splits)

lemma session_inv_init: "session_inv opts AwaitingHeader (init_session t0)"
  by (simp add: session_inv_def single_timer_def init_session_def setTimer_def)

lemma step_inv:
  assumes "session_inv opts ph s" "decoder_next ph ev = Some ph'"
  shows "\<exists>s'. step opts l fs (now, ev) s = Inr s' \<and> session_inv opts ph' s'"
proof (cases ev)
  case FileOpen
  with assms show ?thesis by (cases ph) (auto simp: session_inv_def single_timer_def)
next
  case FileClose
  with assms show ?thesis by (cases ph) (auto simp: session_inv_def single_timer_def)
next
  case (Header h)
  with assms have ph: "ph = AwaitingHeader" by (cases ph) simp_all
  have t: "timers (on_header opts l now h s) = []"
    using assms(1)
    by (auto simp: session_inv_def single_timer_def on_header_def clearTimeout_def Let_def
        stdout_write_def console_log_def)
  have d: "debugProtocol opts \<longrightarrow> dataHash (on_header opts l now h s) = Hashing []"
    by (auto simp: on_header_def clearTimeout_def Let_def stdout_write_def console_log_def)
  show ?thesis
    using Header assms(2) ph t d by (auto simp: session_inv_def single_timer_def split: option.splits)
next
  case (Data chunk)
  with assms have ph: "ph = AwaitingData" "ph' = AwaitingData" by (cases ph; simp)+
  with assms(1) Data show ?thesis
    by (auto simp: session_inv_def single_timer_def on_data_def)
next
  case DataEnd
  with assms have ph: "ph = AwaitingData" "ph' = AwaitingHeader" by (cases ph; simp)+
  with assms(1) DataEnd show ?thesis
    by (auto simp: session_inv_def single_timer_def on_dataEnd_def setTimer_def console_log_def)
next
  case (Debug data)
  with assms show ?thesis by (cases ph) (auto simp: session_inv_def single_timer_def console_log_def)
next
  case (Timeout k)
  with assms have ph: "ph' = ph" by (cases ph) simp_all
  show ?thesis
    using assms(1) Timeout ph
    by (auto simp: session_inv_def single_timer_def on_timeout_def)
next
  case SocketClose
  with assms have ph: "ph' = ph" by (cases ph) simp_all
  show ?thesis
    using assms(1) SocketClose ph
    by (auto simp: session_inv_def single_timer_def on_close_def split: option.splits)
qed

lemma run_events_inv:
  assumes "decoder_run ph evs = Some ph'" "session_inv opts ph s"
  shows "\<exists>s'. run_events opts l fs evs s = Inr s' \<and> session_inv opts ph' s'"
  using assms
proof (induction evs arbitrary: ph s)
  case Nil
  then show ?case by simp
next
  case (Cons ev evs)
  obtain now e where ev: "ev = (now, e)" by (cases ev)
  from Cons.prems(1) obtain ph1 where n: "decoder_next ph e = Some ph1" and r: "decoder_run ph1 evs = Some ph'"
    by (auto simp: ev split: option.splits)
  from step_inv [OF Cons.prems(2) n] obtain s1 where
    s1: "step opts l fs (now, e) s = Inr s1" "session_inv opts ph1 s1" by blast
  from Cons.IH [OF r s1(2)] s1(1) show ?case by (simp add: ev)
qed

lemma decoder_run_append:
  "decoder_run ph (xs @ ys) =
     (case decoder_run ph xs of None \<Rightarrow> None | Some ph' \<Rightarrow> decoder_run ph' ys)"
  by (induction xs arbitrary: ph) (simp_all split: option.splits)

lemma first_time_snoc:
  "first_time P (evs @ [(t, e)]) =
     (case first_time P evs of Some u \<Rightarrow> Some u | None \<Rightarrow> if P e then Some t else None)"
  by (simp add: first_time_def times_of_def split: list.splits)

lemma last_time_snoc:
  "last_time P (evs @ [(t, e)]) = (if P e then Some t else last_time P evs)"
  by (simp add: last_time_def times_of_def)

lemma received_bytes_snoc:
  "received_bytes (evs @ [(t, e)]) = received_bytes evs + chunk_length e"
  by (simp add: received_bytes_def)

lemma first_time_Nil [simp]: "first_time P [] = None"
  by (simp add: first_time_def times_of_def)

lemma last_time_Nil [simp]: "last_time P [] = None"
  by (simp add: last_time_def times_of_def)

lemma received_bytes_Nil [simp]: "received_bytes [] = 0"
  by (simp add: received_bytes_def)

lemma tracks_init: "tracks [] (init_session t0)"
  by (simp add: tracks_def init_session_def setTimer_def)

lemma on_header_fields:
  "timers (on_header opts l now h s) = filter (\<lambda>(k, due). Some k \<noteq> timer s) (timers s)"
  "timer (on_header opts l now h s) = timer s"
  "next_timer (on_header opts l now h s) = next_timer s"
  "bytesReceived_var (on_header opts l now h s) = bytesReceived_var s"
  "receiveStartTime (on_header opts l now h s) = (if once_header s then Some now else receiveStartTime s)"
  "receiveEndTime (on_header opts l now h s) = receiveEndTime s"
  "sendStartTime (on_header opts l now h s) = sendStartTime s"
  "sendEndTime (on_header opts l now h s) = sendEndTime s"
  "once_header (on_header opts l now h s) = False"
  "resolved (on_header opts l now h s) = resolved s"
  "client_ops (on_header opts l now h s) = client_ops s"
  "dataHash (on_header opts l now h s) = (if debugProtocol opts then Hashing [] else dataHash s)"
  "console (on_header opts l now h s) =
     console s @ (if debugProtocol opts
                  then ''<<< '' @ join '' '' (debugData l h)
                       @ (if has_size (header_size h) then [] else [CHR 0x0A])
                  else [])"
  by (simp_all add: on_header_def Let_def clearTimeout_def stdout_write_def console_log_def)

lemma tracks_step:
  assumes "tracks evs s" "step opts l fs (t, e) s = Inr s'" "e \<noteq> SocketClose"
  shows "tracks (evs @ [(t, e)]) s'"
proof (cases e)
  case FileOpen
  with assms show ?thesis
    by (auto simp: tracks_def first_time_snoc last_time_snoc received_bytes_snoc split: option.splits)
next
  case FileClose
  with assms show ?thesis
    by (auto simp: tracks_def first_time_snoc last_time_snoc received_bytes_snoc split: option.splits)
next
  case (Header h)
  with assms(2) have s': "s' = on_header opts l t h s" by simp
  show ?thesis
    using assms(1) unfolding s' Header
    by (auto simp: tracks_def first_time_snoc last_time_snoc received_bytes_snoc on_header_fields
        split: option.splits)
next
  case (Data chunk)
  with assms show ?thesis
    by (auto simp: tracks_def first_time_snoc last_time_snoc received_bytes_snoc
        on_data_def split: option.splits if_splits hash_state.splits)
next
  case DataEnd
  with assms show ?thesis
    by (auto simp: tracks_def first_time_snoc last_time_snoc received_bytes_snoc
        on_dataEnd_def setTimer_def console_log_def split: option.splits if_splits hash_state.splits)
next
  case (Debug data)
  with assms show ?thesis
    by (auto simp: tracks_def first_time_snoc last_time_snoc received_bytes_snoc
        console_log_def split: option.splits if_splits)
next
  case (Timeout k)
  with assms show ?thesis
    by (auto simp: tracks_def first_time_snoc last_time_snoc received_bytes_snoc
        on_timeout_def split: option.splits if_splits)
next
  case SocketClose
  with assms show ?thesis by simp
qed

lemma tracks_run:
  assumes "run_events opts l fs evs (init_session t0) = Inr s"
    and "\<forall>u. (u, SocketClose) \<notin> set evs"
  shows "tracks evs s"
  using assms
proof (induction evs arbitrary: s rule: rev_induct)
  case Nil
  then show ?case by (auto simp: tracks_init)
next
  case (snoc ev evs)
  obtain t e where ev: "ev = (t, e)" by (cases ev)
  from snoc.prems(1) obtain s0 where
    s0: "run_events opts l fs evs (init_session t0) = Inr s0" "step opts l fs (t, e) s0 = Inr s"
    by (auto simp: run_events_append ev split: sum.splits)
  have "tracks evs s0" by (rule snoc.IH [OF s0(1)]) (use snoc.prems(2) in auto)
  moreover have "e \<noteq> SocketClose" using snoc.prems(2) ev by auto
  ultimately show ?case unfolding ev using s0(2) by (intro tracks_step)
qed

lemma resolved_kept:
  "run_events opts l fs evs s = Inr s' \<Longrightarrow> resolved s = Some r \<Longrightarrow> resolved s' = Some r"
proof (induction evs arbitrary: s)
  case Nil
  then show ?case by simp
next
  case (Cons ev evs)
  obtain t e where ev: "ev = (t, e)" by (cases ev)
  from Cons.prems(1) obtain s1 where
    s1: "step opts l fs (t, e) s = Inr s1" "run_events opts l fs evs s1 = Inr s'"
    by (auto simp: ev split: sum.splits)
  have "resolved s1 = Some r"
    using s1(1) Cons.prems(2)
    by (cases e)
       (auto simp: on_header_fields console_log_def
          on_data_def on_dataEnd_def setTimer_def on_timeout_def on_close_def
          split: if_splits hash_state.splits)
  with Cons.IH [OF s1(2)] show ?case by simp
qed

lemma playStream_resolves:
  assumes ok: "pathExists w" "address_error w = None"
    and evs: "events w = pre @ (t, SocketClose) # post"
    and first: "\<forall>u. (u, SocketClose) \<notin> set pre"
    and ord: "decoder_run AwaitingHeader (events w) = Some ph"
  shows "playStream l filePath addr opts w =
     Resolves t \<lparr> bytesSent = Num (int (fileSize w)),
                  bytesReceived = Num (int (received_bytes pre)),
                  sendTime = js_sub (js_time (last_time is_fileClose pre)) (js_time (last_time is_open pre)),
                  receiveTime = js_sub (js_time (last_time is_dataEnd pre)) (js_time (first_time is_header pre)) \<rparr>"
proof -
  let ?init = "init_session (setup_time w)"
  from run_events_inv [OF ord session_inv_init, of opts l "fileSize w" "setup_time w"]
  obtain s where s: "run_events opts l (fileSize w) (events w) ?init = Inr s" by blast
  then obtain s0 s1 where
    s0: "run_events opts l (fileSize w) pre ?init = Inr s0"
    and s1: "step opts l (fileSize w) (t, SocketClose) s0 = Inr s1"
    and s2: "run_events opts l (fileSize w) post s1 = Inr s"
    by (auto simp: evs run_events_append split: sum.splits)
  have tr: "tracks pre s0" by (rule tracks_run [OF s0 first])
  let ?st = "\<lparr> bytesSent = Num (int (fileSize w)),
                  bytesReceived = Num (int (received_bytes pre)),
                  sendTime = js_sub (js_time (last_time is_fileClose pre)) (js_time (last_time is_open pre)),
                  receiveTime = js_sub (js_time (last_time is_dataEnd pre)) (js_time (first_time is_header pre)) \<rparr>"
  have "resolved s1 = Some (t, ?st)"
    using s1 tr by (auto simp: on_close_def tracks_def js_time_def)
  then have "resolved s = Some (t, ?st)" by (rule resolved_kept [OF s2])
  then show ?thesis using ok s by (simp add: playStream_def)
qed




subsection \<open>a session without header\<close>

lemma silent_decoder:
  assumes "decoder_run AwaitingHeader evs = Some ph" "\<forall>t h. (t, Header h) \<notin> set evs"
  shows "ph = AwaitingHeader \<and> (\<forall>ev \<in> set evs. \<not> is_decoded (snd ev))"
  using assms
proof (induction evs)
  case Nil
  then show ?case by simp
next
  case (Cons ev evs)
  obtain t e where ev: "ev = (t, e)" by (cases ev)
  from Cons.prems have e: "decoder_next AwaitingHeader e = Some AwaitingHeader \<and> \<not> is_decoded e"
    by (cases e) (auto simp: ev)
  with Cons.prems(1) have "decoder_run AwaitingHeader evs = Some ph" by (simp add: ev)
  from Cons.IH [OF this] Cons.prems(2) e show ?case by (simp add: ev)
qed

lemma undecoded_summary:
  assumes "\<forall>ev \<in> set evs. \<not> is_decoded (snd ev)"
  shows "received_bytes evs = 0" "first_time is_header evs = None" "last_time is_dataEnd evs = None"
proof -
  have d: "chunk_length e = 0 \<and> \<not> is_header e \<and> \<not> is_dataEnd e" if "\<not> is_decoded e" for e
    using that by (cases e) simp_all
  have "\<forall>ev \<in> set evs. chunk_length (snd ev) = 0" using assms d by blast
  then show "received_bytes evs = 0" by (simp add: received_bytes_def)
  have "filter (is_header \<circ> snd) evs = []" using assms d by (auto simp: filter_empty_conv)
  then show "first_time is_header evs = None" by (simp add: first_time_def times_of_def)
  have "filter (is_dataEnd \<circ> snd) evs = []" using assms d by (auto simp: filter_empty_conv)
  then show "last_time is_dataEnd evs = None" by (simp add: last_time_def times_of_def)
qed

lemma resolved_iff:
  "run_events opts l fs evs s = Inr s' \<Longrightarrow>
   (resolved s' \<noteq> None) = (resolved s \<noteq> None \<or> (\<exists>t. (t, SocketClose) \<in> set evs))"
proof (induction evs arbitrary: s)
  case Nil
  then show ?case by simp
next
  case (Cons ev evs)
  obtain t e where ev: "ev = (t, e)" by (cases ev)
  from Cons.prems(1) obtain s1 where
    s1: "step opts l fs (t, e) s = Inr s1" "run_events opts l fs evs s1 = Inr s'"
    by (auto simp: ev split: sum.splits)
  have "(resolved s1 \<noteq> None) = (resolved s \<noteq> None \<or> e = SocketClose)"
    using s1(1)
    by (cases e)
       (auto simp: on_header_fields console_log_def
          on_data_def on_dataEnd_def setTimer_def on_timeout_def on_close_def
          split: if_splits hash_state.splits option.splits)
  with Cons.IH [OF s1(2)] show ?case by (auto simp: ev)
qed

lemma resolves_playStream:
  assumes "resolves (playStream l filePath addr opts w)"
  shows "pathExists w \<and> address_error w = None
       \<and> (\<exists>pre t post. events w = pre @ (t, SocketClose) # post \<and> (\<forall>u. (u, SocketClose) \<notin> set pre))"
proof -
  from assms have ok: "pathExists w" "address_error w = None"
    by (auto simp: playStream_def split: if_splits option.splits)
  from assms ok obtain s where
    s: "run_events opts l (fileSize w) (events w) (init_session (setup_time w)) = Inr s"
      "resolved s \<noteq> None"
    by (auto simp: playStream_def split: sum.splits option.splits)
  have "resolved (init_session (setup_time w)) = None"
    by (simp add: init_session_def setTimer_def)
  with resolved_iff [OF s(1)] s(2) have "\<exists>ev \<in> set (events w). is_close (snd ev)"
    by force
  from split_list_first_prop [OF this] obtain pre ev post where
    sp: "events w = pre @ ev # post" "is_close (snd ev)" "\<forall>x \<in> set pre. \<not> is_close (snd x)"
    by blast
  obtain t e where ev: "ev = (t, e)" by (cases ev)
  with sp(2) have e: "e = SocketClose" by (cases e) simp_all
  have "\<forall>u. (u, SocketClose) \<notin> set pre" using sp(3) by force
  with sp(1) ev e ok show ?thesis by blast
qed

lemma resolved_stats_member:
  "j \<in> set js \<Longrightarrow> play j = Resolves t st \<Longrightarrow> st \<in> set (resolved_stats (map play js))"
proof (induction js)
  case Nil
  then show ?case by simp
next
  case (Cons k js)
  then show ?case by (cases "play k") auto
qed

lemma receiveTime_reduce_results_NaN:
  assumes "st \<in> set rs" and "receiveTime st = NaN"
  shows "receiveTime (reduce_results rs) = NaN"
proof -
  from assms have "NaN \<in> set (map receiveTime (rev rs))" by force
  then show ?thesis by (simp add: reduce_results_rev sum_stats_def js_sum_NaN)
qed

text \<open>
  Claim C9. A session in which no \<open>header\<close> is decoded resolves with \<open>bytesReceived = 0\<close> and a
  \<open>receiveTime\<close> that is \<open>undefined - undefined\<close>, that is \<open>NaN\<close>; when every session of the run
  resolves, the \<open>receiveTime\<close> of the aggregate returned by \<open>run\<close> is \<open>NaN\<close> too.
\<close>

theorem silent_session_receive_time:
  assumes c: "1 \<le> numConcurrent opts"
    and all: "\<forall>j \<in> set [1 ..< nat (numIterations opts) + 1].
                resolves (playStream l filePath (target_address sa port) opts (worlds j))"
    and j0: "j0 \<in> set [1 ..< nat (numIterations opts) + 1]"
    and ord: "decoder_run AwaitingHeader (events (worlds j0)) = Some ph"
    and silent: "\<forall>t h. (t, Header h) \<notin> set (events (worlds j0))"
  shows "\<exists>t st agg tr.
           playStream l filePath (target_address sa port) opts (worlds j0) = Resolves t st
         \<and> bytesReceived st = Num 0
         \<and> receiveTime st = js_sub None None \<and> receiveTime st = NaN
         \<and> run l worlds port filePath sa opts = Some (Returned agg, tr)
         \<and> receiveTime agg = NaN"
proof -
  let ?play = "\<lambda>addr j. playStream l filePath addr opts (worlds j)"
  let ?w = "worlds j0"
  let ?jobs = "[1 ..< nat (numIterations opts) + 1]"
  from all j0 have "resolves (playStream l filePath (target_address sa port) opts ?w)" by blast
  from resolves_playStream [OF this] obtain pre t post where
    ok: "pathExists ?w" "address_error ?w = None"
    and evs: "events ?w = pre @ (t, SocketClose) # post"
    and first: "\<forall>u. (u, SocketClose) \<notin> set pre"
    by blast
  from silent_decoder [OF ord silent] have "\<forall>ev \<in> set pre. \<not> is_decoded (snd ev)"
    by (simp add: evs)
  note u = undecoded_summary [OF this]
  let ?st = "\<lparr> bytesSent = Num (int (fileSize ?w)), bytesReceived = Num 0,
      sendTime = js_sub (js_time (last_time is_fileClose pre)) (js_time (last_time is_open pre)),
      receiveTime = NaN \<rparr>"
  have p: "playStream l filePath (target_address sa port) opts ?w = Resolves t ?st"
    using playStream_resolves [OF ok evs first ord, of l filePath "target_address sa port" opts]
    by (simp add: u js_time_def)
  from run_with_fold [where opts = opts and play = ?play and sa = sa and port = port, OF c all]
  obtain tr rs where
    r: "run l worlds port filePath sa opts = Some (Returned (reduce_results rs), tr)"
    and m: "mset rs = mset (resolved_stats (map (?play (target_address sa port)) ?jobs))"
    by (auto simp: run_def)
  have "?st \<in> set (resolved_stats (map (?play (target_address sa port)) ?jobs))"
    by (rule resolved_stats_member [OF j0]) (rule p)
  with m have "?st \<in> set rs" by (simp only: mset_eq_setD [OF m])
  then have n: "receiveTime (reduce_results rs) = NaN"
    by (rule receiveTime_reduce_results_NaN) simp
  show ?thesis
    apply (rule exI [of _ t], rule exI [of _ ?st])
    apply (rule exI [of _ "reduce_results rs"])
    apply (rule exI [of _ tr])
    using p r n by simp
qed

lemmas eval_session =
  playStream_def init_session_def setTimer_def RECEIVE_DATA_TIMEOUT_def on_timeout_def on_close_def
  on_header_def clearTimeout_def console_log_def stdout_write_def on_data_def on_dataEnd_def Let_def

lemma silent_play:
  "playStream stub_lib ''session.bin'' addr quiet_options silent_world
   = Resolves 501 \<lparr> bytesSent = Num 4096, bytesReceived = Num 0, sendTime = Num 15, receiveTime = NaN \<rparr>"
  by (simp add: eval_session silent_world_def quiet_options_def)

text \<open>One session against the discard server, which sends nothing.\<close>

theorem silent_session_receive_time_witness:
  "1 \<le> numConcurrent quiet_options
   \<and> resolves (playStream stub_lib ''session.bin'' (target_address None 8126) quiet_options (silent_worlds 1))
   \<and> 1 \<in> set [1 ..< nat (numIterations quiet_options) + 1]
   \<and> decoder_run AwaitingHeader (events (silent_worlds 1)) = Some AwaitingHeader
   \<and> (\<forall>t h. (t, Header h) \<notin> set (events (silent_worlds 1)))
   \<and> (\<exists>agg tr. run stub_lib silent_worlds 8126 ''session.bin'' None quiet_options = Some (Returned agg, tr)
          \<and> receiveTime agg = NaN)"
proof -
  have 1: "1 \<le> numConcurrent quiet_options" by (simp add: quiet_options_def)
  have 2: "\<forall>j \<in> set [1 ..< nat (numIterations quiet_options) + 1].
        resolves (playStream stub_lib ''session.bin'' (target_address None 8126) quiet_options (silent_worlds j))"
    by (simp add: silent_worlds_def silent_play)
  have 3: "1 \<in> set [1 ..< nat (numIterations quiet_options) + 1]"
    by (simp add: quiet_options_def)
  have 4: "decoder_run AwaitingHeader (events (silent_worlds 1)) = Some AwaitingHeader"
    by (simp add: silent_worlds_def silent_world_def)
  have 5: "\<forall>t h. (t, Header h) \<notin> set (events (silent_worlds 1))"
    by (simp add: silent_worlds_def silent_world_def)
  from silent_session_receive_time [where l = stub_lib and worlds = silent_worlds
      and filePath = "''session.bin''" and sa = None and port = 8126, OF 1 2 3 4 5]
  have "\<exists>agg tr. run stub_lib silent_worlds 8126 ''session.bin'' None quiet_options = Some (Returned agg, tr)
          \<and> receiveTime agg = NaN"
    by blast
  moreover have "resolves (playStream stub_lib ''session.bin'' (target_address None 8126) quiet_options (silent_worlds 1))"
    using 2 3 by blast
  ultimately show ?thesis using 1 3 4 5 by blast
qed

subsection \<open>the idle timer\<close>

lemma timer_due_iff:
  "(\<exists>due \<in> set (map snd (filter (\<lambda>(k', due). k' = k) (timers s))). due \<le> now)
   = (\<exists>due. (k, due) \<in> set (timers s) \<and> due \<le> now)"
  by force

lemma step_client_ops:
  assumes "step opts l fs (now, ev) s = Inr s'" "client_ops s' \<noteq> client_ops s"
  shows "\<exists>k due. ev = Timeout k \<and> (k, due) \<in> set (timers s) \<and> due \<le> now"
proof (cases ev)
  case (Timeout k)
  with assms have "\<exists>due. (k, due) \<in> set (timers s) \<and> due \<le> now"
    unfolding timer_due_iff [symmetric] by (auto simp: on_timeout_def split: if_splits)
  with Timeout show ?thesis by blast
qed (use assms in \<open>auto simp: on_header_fields console_log_def on_data_def on_dataEnd_def
      setTimer_def on_close_def split: if_splits hash_state.splits option.splits\<close>)

text \<open>
  Claim C4. The session starts with one timeout set, due 500 ms after the connection was
  created, and no \<open>client.end\<close> done. After any events that the decoder can emit (and any
  other events): a \<open>header\<close>, where the decoder can emit one, leaves no timeout pending; a
  \<open>dataEnd\<close>, where the decoder can emit one, sets one timeout due 500 ms later; a timeout
  that is pending and due fires by \<open>client.end('')\<close> (a zero-length write, then the end of the
  connection), and an event \<open>Timeout\<close> for anything else changes nothing; and no other event
  makes the session end the connection.
\<close>

theorem idle_timer_machine:
  assumes ord: "decoder_run AwaitingHeader evs = Some ph"
  shows "timers (init_session t0) = [(0, t0 + 500)] \<and> timer (init_session t0) = Some 0
       \<and> client_ops (init_session t0) = []
       \<and> (\<exists>s. run_events opts l fs evs (init_session t0) = Inr s
            \<and> (\<forall>now h. ph = AwaitingHeader \<longrightarrow>
                  (\<exists>s'. step opts l fs (now, Header h) s = Inr s'
                        \<and> timers s' = [] \<and> client_ops s' = client_ops s))
            \<and> (\<forall>now. ph = AwaitingData \<longrightarrow>
                  (\<exists>s'. step opts l fs (now, DataEnd) s = Inr s'
                        \<and> timers s' = [(next_timer s, now + 500)] \<and> timer s' = Some (next_timer s)
                        \<and> client_ops s' = client_ops s))
            \<and> (\<forall>now k. \<exists>s'. step opts l fs (now, Timeout k) s = Inr s'
                  \<and> (if \<exists>due. (k, due) \<in> set (timers s) \<and> due \<le> now
                      then timers s' = [] \<and> client_ops s' = client_ops s @ [End []]
                      else s' = s))
            \<and> (\<forall>now ev s'. step opts l fs (now, ev) s = Inr s' \<and> client_ops s' \<noteq> client_ops s \<longrightarrow>
                  (\<exists>k due. ev = Timeout k \<and> (k, due) \<in> set (timers s) \<and> due \<le> now)))"
proof -
  have i: "timers (init_session t0) = [(0, t0 + 500)] \<and> timer (init_session t0) = Some 0
       \<and> client_ops (init_session t0) = []"
    by (simp add: init_session_def setTimer_def RECEIVE_DATA_TIMEOUT_def)
  from run_events_inv [OF ord session_inv_init, of opts l fs t0] obtain s where
    s: "run_events opts l fs evs (init_session t0) = Inr s" and inv: "session_inv opts ph s"
    by blast
  have a: "\<forall>now h. ph = AwaitingHeader \<longrightarrow>
                  (\<exists>s'. step opts l fs (now, Header h) s = Inr s'
                        \<and> timers s' = [] \<and> client_ops s' = client_ops s)"
    using inv by (auto simp: session_inv_def single_timer_def on_header_fields)
  have b: "\<forall>now. ph = AwaitingData \<longrightarrow>
                  (\<exists>s'. step opts l fs (now, DataEnd) s = Inr s'
                        \<and> timers s' = [(next_timer s, now + 500)] \<and> timer s' = Some (next_timer s)
                        \<and> client_ops s' = client_ops s)"
    using inv
    by (auto simp: session_inv_def on_dataEnd_def setTimer_def console_log_def RECEIVE_DATA_TIMEOUT_def)
  have d: "\<forall>now k. \<exists>s'. step opts l fs (now, Timeout k) s = Inr s'
                  \<and> (if \<exists>due. (k, due) \<in> set (timers s) \<and> due \<le> now
                      then timers s' = [] \<and> client_ops s' = client_ops s @ [End []]
                      else s' = s)"
  proof (intro allI)
    fix now k
    show "\<exists>s'. step opts l fs (now, Timeout k) s = Inr s'
                  \<and> (if \<exists>due. (k, due) \<in> set (timers s) \<and> due \<le> now
                      then timers s' = [] \<and> client_ops s' = client_ops s @ [End []]
                      else s' = s)"
      using inv unfolding timer_due_iff [symmetric]
      by (auto simp: session_inv_def single_timer_def on_timeout_def)
  qed
  have e: "\<forall>now ev s'. step opts l fs (now, ev) s = Inr s' \<and> client_ops s' \<noteq> client_ops s \<longrightarrow>
                  (\<exists>k due. ev = Timeout k \<and> (k, due) \<in> set (timers s) \<and> due \<le> now)"
    using step_client_ops by blast
  show ?thesis
    apply (intro conjI)
       apply (rule i [THEN conjunct1])
      apply (rule i [THEN conjunct2, THEN conjunct1])
     apply (rule i [THEN conjunct2, THEN conjunct2])
    apply (rule exI [of _ s])
    apply (intro conjI)
        apply (rule s)
       apply (rule a)
      apply (rule b)
     apply (rule d)
    apply (rule e)
    done
qed

text \<open>After the blob the timer is set at 120, is due at 620, and fires then.\<close>

theorem idle_timer_machine_witness:
  "decoder_run AwaitingHeader (take 6 hit_session) = Some AwaitingHeader
   \<and> timers (init_session 0) = [(0, 500)]
   \<and> (\<exists>s s'. run_events quiet_options stub_lib 4096 (take 6 hit_session) (init_session 0) = Inr s
          \<and> timers s = [(1, 620)]
          \<and> step quiet_options stub_lib 4096 (620, Timeout 1) s = Inr s'
          \<and> timers s' = [] \<and> client_ops s' = [End []])"
proof -
  have h: "decoder_run AwaitingHeader (take 6 hit_session) = Some AwaitingHeader"
    by (simp add: hit_session_def blob_header_def)
  have t: "map_sum id timers (run_events quiet_options stub_lib 4096 (take 6 hit_session) (init_session 0))
           = Inr [(1, 620)]"
    "map_sum id client_ops (run_events quiet_options stub_lib 4096 (take 6 hit_session) (init_session 0))
           = Inr []"
    by (simp_all add: hit_session_def eval_session quiet_options_def blob_header_def)
  from idle_timer_machine [OF h, of 0 quiet_options stub_lib 4096] obtain s where
    i: "timers (init_session 0) = [(0, 0 + 500)]"
    and s: "run_events quiet_options stub_lib 4096 (take 6 hit_session) (init_session 0) = Inr s"
    and f: "\<forall>now k. \<exists>s'. step quiet_options stub_lib 4096 (now, Timeout k) s = Inr s'
                  \<and> (if \<exists>due. (k, due) \<in> set (timers s) \<and> due \<le> now
                      then timers s' = [] \<and> client_ops s' = client_ops s @ [End []]
                      else s' = s)"
    by blast
  from t s have ts: "timers s = [(1, 620)]" "client_ops s = []" by simp_all
  from f obtain s' where
    "step quiet_options stub_lib 4096 (620, Timeout 1) s = Inr s'"
    "if \<exists>due. (1, due) \<in> set (timers s) \<and> due \<le> 620
     then timers s' = [] \<and> client_ops s' = client_ops s @ [End []] else s' = s"
    by blast
  with ts have "step quiet_options stub_lib 4096 (620, Timeout 1) s = Inr s'
      \<and> timers s' = [] \<and> client_ops s' = [End []]"
    by simp
  with h i s ts show ?thesis by auto
qed

subsection \<open>a header without blob\<close>

lemma undecoded_phase:
  "\<forall>ev \<in> set evs. \<not> is_decoded (snd ev) \<Longrightarrow> decoder_run ph evs = Some ph"
proof (induction evs)
  case Nil
  then show ?case by simp
next
  case (Cons ev evs)
  then have "decoder_next ph (snd ev) = Some ph"
    by (cases "snd ev"; cases ph) simp_all
  with Cons show ?case by simp
qed

lemma quiet_events:
  assumes "\<forall>ev \<in> set evs. \<not> is_decoded (snd ev)" "timers s = []"
  shows "\<exists>s'. run_events opts l fs evs s = Inr s' \<and> timers s' = [] \<and> client_ops s' = client_ops s"
  using assms
proof (induction evs arbitrary: s)
  case Nil
  then show ?case by simp
next
  case (Cons ev evs)
  obtain t e where ev: "ev = (t, e)" by (cases ev)
  from Cons.prems have "\<exists>s1. step opts l fs (t, e) s = Inr s1 \<and> timers s1 = []
      \<and> client_ops s1 = client_ops s"
    by (cases e) (auto simp: ev on_timeout_def on_close_def console_log_def split: option.splits)
  then obtain s1 where s1: "step opts l fs (t, e) s = Inr s1" "timers s1 = []"
    "client_ops s1 = client_ops s" by blast
  from Cons.IH [OF _ s1(2)] Cons.prems(1) obtain s' where
    "run_events opts l fs evs s1 = Inr s'" "timers s' = []" "client_ops s' = client_ops s1"
    by auto
  with s1 show ?case by (simp add: ev)
qed

text \<open>
  Claim C10, as amended. When a \<open>header\<close> without size arrives before the timer has ever
  fired, and no event is decoded after it, then that \<open>header\<close> leaves no timeout pending,
  none is set afterwards, and the session never ends the connection itself: its promise is
  resolved if and only if the socket closes, which only the peer can cause.
\<close>

theorem header_without_blob:
  assumes ord: "decoder_run AwaitingHeader pre = Some AwaitingHeader"
    and nosize: "header_size h = None"
    and s0: "run_events opts l fs pre (init_session t0) = Inr s0"
    and nofire: "client_ops s0 = []"
    and post: "\<forall>ev \<in> set post. \<not> is_decoded (snd ev)"
  shows "\<exists>s1 s. step opts l fs (now, Header h) s0 = Inr s1 \<and> timers s1 = []
        \<and> decoder_run AwaitingHeader (pre @ (now, Header h) # post) = Some AwaitingHeader
        \<and> run_events opts l fs (pre @ (now, Header h) # post) (init_session t0) = Inr s
        \<and> timers s = [] \<and> client_ops s = []
        \<and> (resolved s \<noteq> None) = (\<exists>t. (t, SocketClose) \<in> set (pre @ post))"
proof -
  from run_events_inv [OF ord session_inv_init, of opts l fs t0] s0
  have inv: "session_inv opts AwaitingHeader s0" by simp
  let ?s1 = "on_header opts l now h s0"
  have t1: "timers ?s1 = []"
    using inv by (auto simp: session_inv_def single_timer_def on_header_fields)
  have c1: "client_ops ?s1 = []" using nofire by (simp add: on_header_fields)
  from quiet_events [OF post t1, of opts l fs] obtain s where
    s: "run_events opts l fs post ?s1 = Inr s" "timers s = []" "client_ops s = client_ops ?s1"
    by blast
  have run: "run_events opts l fs (pre @ (now, Header h) # post) (init_session t0) = Inr s"
    using s0 s(1) by (simp add: run_events_append)
  have d: "decoder_run AwaitingHeader (pre @ (now, Header h) # post) = Some AwaitingHeader"
    using ord nosize undecoded_phase [OF post, of AwaitingHeader] by (simp add: decoder_run_append)
  have "resolved (init_session t0) = None" by (simp add: init_session_def setTimer_def)
  with resolved_iff [OF run]
  have r: "(resolved s \<noteq> None) = (\<exists>t. (t, SocketClose) \<in> set (pre @ post))" by auto
  show ?thesis
    apply (rule exI [of _ ?s1], rule exI [of _ s])
    using t1 d run s(2,3) c1 r by simp
qed

text \<open>
  A miss at 100 cancels the first timer; its timeout at 900 changes nothing, and the session
  stays open.
\<close>

theorem header_without_blob_witness:
  "decoder_run AwaitingHeader (take 1 early_miss_session) = Some AwaitingHeader
   \<and> header_size miss_header = None
   \<and> map_sum id client_ops
       (run_events quiet_options stub_lib 4096 (take 1 early_miss_session) (init_session 0)) = Inr []
   \<and> filter (is_decoded \<circ> snd) (drop 2 early_miss_session) = []
   \<and> (\<exists>s. run_events quiet_options stub_lib 4096 early_miss_session (init_session 0) = Inr s
          \<and> timers s = [] \<and> client_ops s = [] \<and> resolved s = None)"
proof -
  have 1: "decoder_run AwaitingHeader (take 1 early_miss_session) = Some AwaitingHeader"
    by (simp add: early_miss_session_def)
  have 2: "header_size miss_header = None" by (simp add: miss_header_def)
  obtain s0 where 3: "run_events quiet_options stub_lib 4096 (take 1 early_miss_session) (init_session 0) = Inr s0"
    by (simp add: early_miss_session_def)
  have 4: "client_ops s0 = []"
    using 3 by (auto simp: early_miss_session_def eval_session)
  have 5: "\<forall>ev \<in> set (drop 2 early_miss_session). \<not> is_decoded (snd ev)"
    by (simp add: early_miss_session_def)
  have e: "take 1 early_miss_session @ (100, Header miss_header) # drop 2 early_miss_session
           = early_miss_session"
    by (simp add: early_miss_session_def)
  have n: "\<not> (\<exists>t. (t, SocketClose) \<in> set (take 1 early_miss_session @ drop 2 early_miss_session))"
    by (simp add: early_miss_session_def)
  from header_without_blob [OF 1 2 3 4 5, of 100] obtain s where
    "run_events quiet_options stub_lib 4096
       (take 1 early_miss_session @ (100, Header miss_header) # drop 2 early_miss_session)
       (init_session 0) = Inr s"
    "timers s = []" "client_ops s = []"
    "(resolved s \<noteq> None)
       = (\<exists>t. (t, SocketClose) \<in> set (take 1 early_miss_session @ drop 2 early_miss_session))"
    by blast
  then have "run_events quiet_options stub_lib 4096 early_miss_session (init_session 0) = Inr s
          \<and> timers s = [] \<and> client_ops s = [] \<and> resolved s = None"
    unfolding e using n by (cases "resolved s") auto
  then have "\<exists>s. run_events quiet_options stub_lib 4096 early_miss_session (init_session 0) = Inr s
          \<and> timers s = [] \<and> client_ops s = [] \<and> resolved s = None"
    by blast
  moreover have "filter (is_decoded \<circ> snd) (drop 2 early_miss_session) = []"
    by (simp add: early_miss_session_def)
  ultimately show ?thesis using 1 2 3 4 by simp
qed

text \<open>
  Claim C10 as stated fails when the first timer fires before the header arrives: the
  session has ended the connection, although its last decoded event is a header without blob.
\<close>

theorem header_without_blob_counterexample:
  "decoder_run AwaitingHeader late_miss_session = Some AwaitingHeader
   \<and> last late_miss_session = (700, Header miss_header)
   \<and> header_size miss_header = None
   \<and> map_sum id client_ops
       (run_events quiet_options stub_lib 4096 late_miss_session (init_session 0)) = Inr [End []]"
  by (simp add: late_miss_session_def miss_header_def eval_session quiet_options_def)

subsection \<open>debugging output\<close>

lemma join_three: "join sep [a, b, c] = a @ sep @ b @ sep @ c"
  by simp

lemma join_four: "join sep [a, b, c, d] = a @ sep @ b @ sep @ c @ sep @ d"
  by simp











end
